theory Spec2Isabelle
  imports Complex_Main
begin

section \<open>Binary64 arithmetic\<close>

text \<open>
  Every number the dashboard computes is a Python \<^verbatim>\<open>float\<close> or a numpy \<^verbatim>\<open>float64\<close>: an
  IEEE 754 binary64 value. A finite value is represented by the rational it denotes; the
  two infinities and NaN are separate constructors. The sign of zero is not tracked (no
  comparison in the program can observe it).
\<close>

datatype f64 = Fin rat | PInf | NInf | NaN

text \<open>\<open>bit_length n\<close> is Python's \<^verbatim>\<open>int.bit_length\<close>: the number of binary digits of \<open>n\<close>.\<close>

fun bit_length :: "nat \<Rightarrow> nat" where
  "bit_length n = (if n = 0 then 0 else Suc (bit_length (n div 2)))"

declare bit_length.simps [simp del]

text \<open>The binary exponent of a positive rational: \<open>2 powi binade x \<le> x < 2 powi (binade x + 1)\<close>.\<close>

definition binade :: "rat \<Rightarrow> int" where
  "binade x = (if 1 \<le> x then int (bit_length (nat \<lfloor>x\<rfloor>)) - 1
               else - int (bit_length (nat (\<lceil>1 / x\<rceil> - 1))))"

text \<open>Rounding to the nearest integer, ties to the even one (the default IEEE mode).\<close>

definition round_half_even :: "rat \<Rightarrow> int" where
  "round_half_even x =
     (let f = \<lfloor>x\<rfloor>; d = x - of_int f
      in if d < 1 / 2 then f else if 1 / 2 < d then f + 1 else if even f then f else f + 1)"

text \<open>
  The spacing of binary64 numbers around a positive magnitude: 53 significant bits, and
  the fixed spacing \<open>2 powi (- 1074)\<close> of the subnormal range below \<open>2 powi (- 1022)\<close>.
\<close>

definition quantum :: "rat \<Rightarrow> rat" where
  "quantum a = 2 powi (max (binade a) (- 1022) - 52)"

definition round_mag :: "rat \<Rightarrow> rat" where
  "round_mag a = of_int (round_half_even (a / quantum a)) * quantum a"

definition overflow_bound :: rat where
  "overflow_bound = 2 ^ 1024"

text \<open>
  The result of an arithmetic operation whose exact value is \<open>x\<close>: the nearest binary64
  number, or an infinity when the rounded magnitude reaches \<open>2 ^ 1024\<close>.
\<close>

definition round_f64 :: "rat \<Rightarrow> f64" where
  "round_f64 x =
     (if x = 0 then Fin 0
      else let y = round_mag \<bar>x\<bar>
           in if overflow_bound \<le> y then (if 0 < x then PInf else NInf)
              else Fin (if 0 < x then y else - y))"

text \<open>A rational is a binary64 number when rounding leaves it unchanged.\<close>

definition is_f64 :: "rat \<Rightarrow> bool" where
  "is_f64 x = (round_f64 x = Fin x)"

text \<open>The comparison \<^verbatim>\<open><=\<close> of two floats; every comparison with NaN is false.\<close>

fun f64_le :: "f64 \<Rightarrow> f64 \<Rightarrow> bool" where
  "f64_le NaN _ = False"
| "f64_le _ NaN = False"
| "f64_le NInf _ = True"
| "f64_le _ PInf = True"
| "f64_le (Fin a) (Fin b) = (a \<le> b)"
| "f64_le _ _ = False"

fun f64_add :: "f64 \<Rightarrow> f64 \<Rightarrow> f64" where
  "f64_add (Fin a) (Fin b) = round_f64 (a + b)"
| "f64_add NaN _ = NaN"
| "f64_add _ NaN = NaN"
| "f64_add PInf NInf = NaN"
| "f64_add NInf PInf = NaN"
| "f64_add PInf _ = PInf"
| "f64_add _ PInf = PInf"
| "f64_add NInf _ = NInf"
| "f64_add _ NInf = NInf"

fun f64_sign :: "f64 \<Rightarrow> int" where
  "f64_sign (Fin a) = (if 0 < a then 1 else if a < 0 then - 1 else 0)"
| "f64_sign PInf = 1"
| "f64_sign NInf = - 1"
| "f64_sign NaN = 0"

definition signed_inf :: "int \<Rightarrow> f64" where
  "signed_inf s = (if s = 0 then NaN else if 0 < s then PInf else NInf)"

fun f64_mul :: "f64 \<Rightarrow> f64 \<Rightarrow> f64" where
  "f64_mul (Fin a) (Fin b) = round_f64 (a * b)"
| "f64_mul NaN _ = NaN"
| "f64_mul _ NaN = NaN"
| "f64_mul x y = signed_inf (f64_sign x * f64_sign y)"

text \<open>
  Division as numpy performs it. A zero divisor is taken as \<open>+0\<close>; no divisor of the
  program is zero (they are the literals \<^verbatim>\<open>100.0\<close> and \<^verbatim>\<open>10\<close> and a positive count), so
  Python's \<^verbatim>\<open>ZeroDivisionError\<close> cannot arise either.
\<close>

fun f64_div :: "f64 \<Rightarrow> f64 \<Rightarrow> f64" where
  "f64_div (Fin a) (Fin b) = (if b = 0 then signed_inf (f64_sign (Fin a)) else round_f64 (a / b))"
| "f64_div NaN _ = NaN"
| "f64_div _ NaN = NaN"
| "f64_div (Fin a) _ = Fin 0"
| "f64_div x (Fin b) = (if b < 0 then signed_inf (- f64_sign x) else x)"
| "f64_div _ _ = NaN"

text \<open>Conversion of a Python \<^verbatim>\<open>int\<close> to \<^verbatim>\<open>float\<close>.\<close>

definition f64_of_int :: "int \<Rightarrow> f64" where
  "f64_of_int n = round_f64 (of_int n)"

subsection \<open>The exponent of a rational\<close>

lemma bit_length_bounds:
  "0 < n \<Longrightarrow> 2 ^ (bit_length n - 1) \<le> n \<and> n < 2 ^ bit_length n"
proof (induction n rule: bit_length.induct)
  case (1 n)
  show ?case
  proof (cases "n div 2 = 0")
    case True
    with "1.prems" have "n = 1" by presburger
    then show ?thesis by (simp add: bit_length.simps)
  next
    case False
    then have pos: "0 < n div 2" by simp
    from "1.prems" have n0: "n \<noteq> 0" by simp
    from "1.IH" [OF n0 pos]
    have lo: "2 ^ (bit_length (n div 2) - 1) \<le> n div 2"
      and hi: "n div 2 < 2 ^ bit_length (n div 2)" by simp_all
    have bl: "bit_length n = Suc (bit_length (n div 2))"
      using n0 by (subst bit_length.simps) simp
    have blpos: "0 < bit_length (n div 2)"
      using pos by (subst bit_length.simps) simp
    then obtain k where k: "bit_length (n div 2) = Suc k"
      by (cases "bit_length (n div 2)") auto
    from lo k have "2 ^ k \<le> n div 2" by simp
    then have "2 * 2 ^ k \<le> n" by presburger
    moreover from hi have "n < 2 * 2 ^ bit_length (n div 2)" by presburger
    ultimately show ?thesis using bl k by simp
  qed
qed

lemma binade_bounds:
  assumes "0 < x"
  shows "2 powi binade x \<le> x \<and> x < 2 powi (binade x + 1)"
proof (cases "1 \<le> x")
  case True
  define n where "n = nat \<lfloor>x\<rfloor>"
  have fl: "1 \<le> \<lfloor>x\<rfloor>" using True by linarith
  then have npos: "0 < n" by (simp add: n_def)
  have nx: "rat_of_nat n \<le> x" and xn: "x < rat_of_nat n + 1"
    using fl by (simp_all add: n_def of_nat_nat) linarith+
  from bit_length_bounds [OF npos]
  have lo: "2 ^ (bit_length n - 1) \<le> n" and hi: "n < 2 ^ bit_length n" by simp_all
  have blpos: "0 < bit_length n" using npos by (subst bit_length.simps) simp
  have b: "binade x = int (bit_length n) - 1"
    using True by (simp add: binade_def n_def)
  have b': "binade x = int (bit_length n - 1)" using b blpos by simp
  have "(2::rat) powi binade x = 2 ^ (bit_length n - 1)"
    unfolding b' by simp
  also have "\<dots> = rat_of_nat (2 ^ (bit_length n - 1))" by simp
  also have "\<dots> \<le> rat_of_nat n" using lo by (simp only: of_nat_le_iff)
  finally have L: "2 powi binade x \<le> x" using nx by simp
  have "n + 1 \<le> 2 ^ bit_length n" using hi by simp
  then have "rat_of_nat (n + 1) \<le> rat_of_nat (2 ^ bit_length n)" by (simp only: of_nat_le_iff)
  then have "rat_of_nat n + 1 \<le> 2 ^ bit_length n" by simp
  moreover have "(2::rat) powi (binade x + 1) = 2 ^ bit_length n"
    unfolding b by simp
  ultimately have "x < 2 powi (binade x + 1)" using xn by simp
  with L show ?thesis by simp
next
  case False
  then have x1: "x < 1" by simp
  define c where "c = \<lceil>1 / x\<rceil>"
  have inv: "1 < 1 / x" using assms x1 by simp
  then have c2: "2 \<le> c" unfolding c_def by linarith
  define n where "n = nat (c - 1)"
  have npos: "0 < n" using c2 by (simp add: n_def)
  have nc: "int n = c - 1" using c2 by (simp add: n_def)
  have up: "1 / x \<le> of_int c" unfolding c_def by linarith
  have dn: "of_int c - 1 < 1 / x" unfolding c_def by linarith
  from bit_length_bounds [OF npos]
  have lo: "2 ^ (bit_length n - 1) \<le> n" and hi: "n < 2 ^ bit_length n" by simp_all
  have blpos: "0 < bit_length n" using npos by (subst bit_length.simps) simp
  have b: "binade x = - int (bit_length n)"
    using False by (simp add: binade_def n_def c_def)
  have "int n + 1 \<le> 2 ^ bit_length n" using hi
    by (metis Suc_leI of_nat_Suc of_nat_le_iff of_nat_numeral of_nat_power add.commute)
  then have "c \<le> 2 ^ bit_length n" using nc by simp
  then have "rat_of_int c \<le> 2 ^ bit_length n"
    by (metis of_int_le_iff of_int_numeral of_int_power)
  with up have "1 / x \<le> 2 ^ bit_length n" by (rule order_trans)
  then have "1 \<le> 2 ^ bit_length n * x" using assms by (simp add: field_simps)
  then have L: "2 powi binade x \<le> x"
    unfolding b by (simp add: power_int_minus field_simps)
  have "rat_of_nat (2 ^ (bit_length n - 1)) \<le> rat_of_nat n" using lo by (simp only: of_nat_le_iff)
  then have "2 ^ (bit_length n - 1) \<le> rat_of_nat n" by simp
  also have "rat_of_nat n = of_int c - 1" using nc by (metis of_int_of_nat_eq of_int_diff of_int_1)
  finally have "2 ^ (bit_length n - 1) < 1 / x" using dn by simp
  then have "x * 2 ^ (bit_length n - 1) < 1" using assms by (simp add: field_simps)
  moreover have "binade x + 1 = - int (bit_length n - 1)" using b blpos by simp
  ultimately have "x < 2 powi (binade x + 1)"
    by (simp add: power_int_minus field_simps)
  with L show ?thesis by simp
qed

lemma binade_unique:
  assumes "0 < x" "2 powi e \<le> x" "x < 2 powi (e + 1)"
  shows "binade x = e"
proof -
  from binade_bounds [OF assms(1)]
  have lo: "2 powi binade x \<le> x" and hi: "x < 2 powi (binade x + 1)" by simp_all
  have "(2::rat) powi e < 2 powi (binade x + 1)" using assms(2) hi by simp
  then have "e < binade x + 1"
    by (metis not_le power_int_increasing one_le_numeral)
  moreover have "(2::rat) powi binade x < 2 powi (e + 1)" using lo assms(3) by simp
  then have "binade x < e + 1"
    by (metis not_le power_int_increasing one_le_numeral)
  ultimately show ?thesis by simp
qed

lemma binade_mono:
  assumes "0 < x" "x \<le> y"
  shows "binade x \<le> binade y"
proof (rule ccontr)
  assume "\<not> binade x \<le> binade y"
  then have "binade y + 1 \<le> binade x" by simp
  then have "(2::rat) powi (binade y + 1) \<le> 2 powi binade x"
    by (intro power_int_increasing) simp_all
  moreover have "y < 2 powi (binade y + 1)" using binade_bounds [of y] assms by simp
  moreover have "2 powi binade x \<le> x" using binade_bounds [OF assms(1)] by simp
  ultimately show False using assms(2) by simp
qed

subsection \<open>Rounding is monotone and exact on binary64 numbers\<close>

lemma round_half_even_of_int [simp]: "round_half_even (of_int k) = k"
  by (simp add: round_half_even_def)

lemma round_half_even_bounds:
  "of_int (round_half_even x) \<le> x + 1 / 2" "x - 1 / 2 \<le> of_int (round_half_even x)"
  unfolding round_half_even_def Let_def by (auto; linarith)+

lemma round_half_even_floor: "\<lfloor>x\<rfloor> \<le> round_half_even x" "round_half_even x \<le> \<lfloor>x\<rfloor> + 1"
  unfolding round_half_even_def Let_def by auto

lemma round_half_even_mono:
  assumes "x \<le> y"
  shows "round_half_even x \<le> round_half_even y"
proof (cases "\<lfloor>x\<rfloor> = \<lfloor>y\<rfloor>")
  case True
  have "x - of_int \<lfloor>x\<rfloor> \<le> y - of_int \<lfloor>x\<rfloor>" using assms by simp
  then show ?thesis
    unfolding round_half_even_def Let_def True [symmetric] by auto
next
  case False
  have "\<lfloor>x\<rfloor> \<le> \<lfloor>y\<rfloor>" using assms by (rule floor_mono)
  with False have "\<lfloor>x\<rfloor> + 1 \<le> \<lfloor>y\<rfloor>" by simp
  with round_half_even_floor(2) [of x] round_half_even_floor(1) [of y]
  show ?thesis by linarith
qed

lemma quantum_pos [simp]: "0 < quantum a"
  by (simp add: quantum_def)

lemma quantum_nonneg [simp]: "0 \<le> quantum a"
  by (simp add: quantum_def)

lemma round_mag_nonneg: "0 \<le> a \<Longrightarrow> 0 \<le> round_mag a"
proof -
  assume "0 \<le> a"
  then have "0 \<le> a / quantum a" by (simp add: zero_le_divide_iff less_imp_le)
  then have "round_half_even 0 \<le> round_half_even (a / quantum a)"
    by (rule round_half_even_mono)
  then have "0 \<le> round_half_even (a / quantum a)"
    using round_half_even_of_int [of 0] by simp
  then show ?thesis by (simp add: round_mag_def)
qed

lemma round_mag_upper:
  assumes "0 < a" "e = max (binade a) (- 1022)"
  shows "round_mag a \<le> 2 powi (e + 1)"
proof -
  have q: "quantum a = 2 powi (e - 52)" using assms by (simp add: quantum_def)
  have "a < 2 powi (binade a + 1)" using binade_bounds [OF assms(1)] by simp
  also have "\<dots> \<le> 2 powi (e + 1)"
    using assms(2) by (intro power_int_increasing) simp_all
  finally have a: "a \<le> 2 powi (e + 1)" by simp
  have "(2::rat) powi (e - 52 + 53) = 2 powi (e - 52) * 2 powi 53"
    by (rule power_int_add) simp
  then have split: "(2::rat) powi (e + 1) = quantum a * of_int (2 ^ 53)"
    by (simp add: q add.commute)
  from a have "a \<le> of_int (2 ^ 53) * quantum a"
    unfolding split by (simp only: mult.commute)
  then have "a / quantum a \<le> of_int (2 ^ 53)"
    by (simp only: pos_divide_le_eq [OF quantum_pos])
  then have "round_half_even (a / quantum a) \<le> round_half_even (of_int (2 ^ 53))"
    by (rule round_half_even_mono)
  then have "round_half_even (a / quantum a) \<le> 2 ^ 53"
    by (simp only: round_half_even_of_int)
  then have "rat_of_int (round_half_even (a / quantum a)) \<le> of_int (2 ^ 53)"
    by (simp only: of_int_le_iff)
  then have "round_mag a \<le> of_int (2 ^ 53) * quantum a"
    unfolding round_mag_def by (intro mult_right_mono) simp_all
  then show ?thesis by (simp add: split mult.commute)
qed

lemma round_mag_lower:
  assumes "0 < a" "- 1022 \<le> binade a"
  shows "2 powi binade a \<le> round_mag a"
proof -
  have q: "quantum a = 2 powi (binade a - 52)" using assms by (simp add: quantum_def max_def)
  have a: "2 powi binade a \<le> a" using binade_bounds [OF assms(1)] by simp
  have "(2::rat) powi (binade a - 52 + 52) = 2 powi (binade a - 52) * 2 powi 52"
    by (rule power_int_add) simp
  then have split: "(2::rat) powi binade a = quantum a * of_int (2 ^ 52)"
    by (simp add: q)
  from a have "of_int (2 ^ 52) * quantum a \<le> a"
    unfolding split by (simp only: mult.commute)
  then have "of_int (2 ^ 52) \<le> a / quantum a"
    by (simp only: pos_le_divide_eq [OF quantum_pos])
  then have "round_half_even (of_int (2 ^ 52)) \<le> round_half_even (a / quantum a)"
    by (rule round_half_even_mono)
  then have "2 ^ 52 \<le> round_half_even (a / quantum a)"
    by (simp only: round_half_even_of_int)
  then have "rat_of_int (2 ^ 52) \<le> of_int (round_half_even (a / quantum a))"
    by (simp only: of_int_le_iff)
  then have "of_int (2 ^ 52) * quantum a \<le> round_mag a"
    unfolding round_mag_def by (intro mult_right_mono) simp_all
  then show ?thesis by (simp add: split mult.commute)
qed

lemma round_mag_mono:
  assumes "0 < a" "a \<le> b"
  shows "round_mag a \<le> round_mag b"
proof -
  define ea where "ea = max (binade a) (- 1022)"
  define eb where "eb = max (binade b) (- 1022)"
  have bpos: "0 < b" using assms by simp
  have "binade a \<le> binade b" using assms by (rule binade_mono)
  then have le: "ea \<le> eb" by (simp add: ea_def eb_def)
  show ?thesis
  proof (cases "ea = eb")
    case True
    then have q: "quantum a = quantum b" by (simp add: quantum_def ea_def eb_def)
    have "a / quantum b \<le> b / quantum b"
      using assms(2) by (rule divide_right_mono) (simp add: less_imp_le)
    then have "round_half_even (a / quantum b) \<le> round_half_even (b / quantum b)"
      by (rule round_half_even_mono)
    then have "rat_of_int (round_half_even (a / quantum b)) \<le> of_int (round_half_even (b / quantum b))"
      by (simp only: of_int_le_iff)
    then show ?thesis unfolding round_mag_def q by (intro mult_right_mono) simp_all
  next
    case False
    with le have lt: "ea + 1 \<le> eb" by simp
    then have "- 1022 < eb" by (simp add: ea_def)
    then have eb: "eb = binade b" "- 1022 \<le> binade b"
      by (simp_all add: eb_def max_def split: if_splits)
    have "round_mag a \<le> 2 powi (ea + 1)" using assms(1) ea_def by (rule round_mag_upper)
    also have "\<dots> \<le> 2 powi eb" using lt by (intro power_int_increasing) simp_all
    also have "\<dots> \<le> round_mag b" unfolding eb(1) using bpos eb(2) by (rule round_mag_lower)
    finally show ?thesis .
  qed
qed

lemma round_f64_not_NaN [simp]: "round_f64 x \<noteq> NaN"
  by (simp add: round_f64_def Let_def)

lemma round_f64_zero [simp]: "round_f64 0 = Fin 0"
  by (simp add: round_f64_def)

lemma round_f64_pos:
  "0 < x \<Longrightarrow> round_f64 x = (if overflow_bound \<le> round_mag x then PInf else Fin (round_mag x))"
  by (simp add: round_f64_def Let_def)

lemma round_f64_neg:
  "x < 0 \<Longrightarrow>
   round_f64 x = (if overflow_bound \<le> round_mag (- x) then NInf else Fin (- round_mag (- x)))"
  by (simp add: round_f64_def Let_def)

lemma round_f64_mono:
  assumes "x \<le> y"
  shows "f64_le (round_f64 x) (round_f64 y)"
proof -
  consider "0 < x" | "x = 0" | "x < 0" by linarith
  then show ?thesis
  proof cases
    case 1
    then have y: "0 < y" using assms by simp
    have "round_mag x \<le> round_mag y" using 1 assms by (rule round_mag_mono)
    then show ?thesis by (simp add: round_f64_pos 1 y)
  next
    case 2
    show ?thesis
    proof (cases "y = 0")
      case True
      then show ?thesis using 2 by simp
    next
      case False
      then have y: "0 < y" using assms 2 by simp
      have "0 \<le> round_mag y" using y by (simp add: round_mag_nonneg)
      then show ?thesis by (simp add: 2 round_f64_pos y)
    qed
  next
    case 3
    then have nx: "0 < - x" by simp
    have rx: "0 \<le> round_mag (- x)" using nx by (simp add: round_mag_nonneg)
    consider "0 < y" | "y = 0" | "y < 0" by linarith
    then show ?thesis
    proof cases
      case 1
      have "0 \<le> round_mag y" using 1 by (simp add: round_mag_nonneg)
      then show ?thesis using rx by (simp add: round_f64_pos 1 round_f64_neg 3)
    next
      case 2
      then show ?thesis using rx by (simp add: round_f64_neg 3)
    next
      case 3
      then have ny: "0 < - y" by simp
      have "round_mag (- y) \<le> round_mag (- x)"
        using ny assms by (intro round_mag_mono) simp_all
      then show ?thesis using \<open>x < 0\<close> 3 by (simp add: round_f64_neg)
    qed
  qed
qed

lemma round_mag_exact:
  assumes "0 < m" "m < 2 ^ 53" "- 1074 \<le> k"
  shows "round_mag (of_int m * 2 powi k) = of_int m * 2 powi k"
proof -
  define x :: rat where "x = of_int m * 2 powi k"
  define e where "e = max (binade x) (- 1022)"
  have xpos: "0 < x" using assms(1) by (simp add: x_def)
  have "rat_of_int m < of_int (2 ^ 53)" using assms(2) by (simp only: of_int_less_iff)
  then have "x < 2 powi 53 * 2 powi k" by (simp add: x_def)
  also have "\<dots> = 2 powi (53 + k)" by (rule power_int_add [symmetric]) simp
  finally have "x < 2 powi (53 + k)" .
  moreover have "2 powi binade x \<le> x" using binade_bounds [OF xpos] by simp
  ultimately have "(2::rat) powi binade x < 2 powi (53 + k)" by simp
  then have "binade x < 53 + k"
    by (metis not_le power_int_increasing one_le_numeral)
  then have ek: "e - 52 \<le> k" using assms(3) by (simp add: e_def)
  define j where "j = nat (k - (e - 52))"
  have kj: "k = (e - 52) + int j" using ek by (simp add: j_def)
  have q: "quantum x = 2 powi (e - 52)" by (simp add: quantum_def e_def)
  have "(2::rat) powi k = 2 powi (e - 52) * 2 powi (int j)"
    unfolding kj by (rule power_int_add) simp
  then have "x = of_int m * (2 powi (e - 52) * 2 powi (int j))"
    by (simp only: x_def)
  also have "\<dots> = of_int (m * 2 ^ j) * 2 powi (e - 52)" by simp
  finally have x1: "x = of_int (m * 2 ^ j) * 2 powi (e - 52)" .
  have xq: "x = of_int (m * 2 ^ j) * quantum x"
    unfolding q by (rule x1)
  have qnz: "quantum x \<noteq> 0" by (simp add: quantum_def)
  from xq have "x / quantum x = (of_int (m * 2 ^ j) * quantum x) / quantum x"
    by (rule arg_cong [where f = "\<lambda>t. t / quantum x"])
  also have "\<dots> = of_int (m * 2 ^ j)" using qnz by simp
  finally have "x / quantum x = of_int (m * 2 ^ j)" .
  then have "round_half_even (x / quantum x) = m * 2 ^ j"
    by (simp only: round_half_even_of_int)
  then have "round_mag x = of_int (m * 2 ^ j) * quantum x"
    by (simp only: round_mag_def)
  also have "\<dots> = x" by (rule xq [symmetric])
  finally show ?thesis by (simp only: x_def)
qed

lemma round_f64_exact:
  assumes "\<bar>m\<bar> < 2 ^ 53" "- 1074 \<le> k" "\<bar>of_int m * 2 powi k\<bar> < overflow_bound"
  shows "round_f64 (of_int m * 2 powi k) = Fin (of_int m * 2 powi k)"
proof -
  define x :: rat where "x = of_int m * 2 powi k"
  have bound: "\<bar>x\<bar> < overflow_bound" using assms(3) by (simp only: x_def)
  consider "0 < m" | "m = 0" | "m < 0" by linarith
  then have "round_f64 x = Fin x"
  proof cases
    case 1
    then have pos: "0 < x" by (simp add: x_def)
    have "round_mag x = x"
      unfolding x_def using 1 assms(1,2) by (intro round_mag_exact) simp_all
    then show ?thesis using bound pos by (simp add: round_f64_pos)
  next
    case 2
    then show ?thesis by (simp add: x_def)
  next
    case 3
    then have neg: "x < 0" by (simp add: x_def mult_neg_pos)
    have "round_mag (of_int (- m) * 2 powi k) = of_int (- m) * 2 powi k"
      using 3 assms(1,2) by (intro round_mag_exact) simp_all
    then have "round_mag (- x) = - x" by (simp add: x_def)
    then show ?thesis using bound neg by (simp add: round_f64_neg)
  qed
  then show ?thesis by (simp only: x_def)
qed

lemma is_f64_of_int:
  assumes "\<bar>n\<bar> < 2 ^ 53"
  shows "is_f64 (of_int n)"
proof -
  have "\<bar>rat_of_int n\<bar> < of_int (2 ^ 53)"
    using assms by (metis of_int_abs of_int_less_iff)
  also have "\<dots> < overflow_bound" by (simp add: overflow_bound_def)
  finally have "\<bar>rat_of_int n * 2 powi 0\<bar> < overflow_bound" by simp
  with round_f64_exact [of n 0] assms show ?thesis by (simp add: is_f64_def)
qed

lemma f64_of_int_small: "\<bar>n\<bar> < 2 ^ 53 \<Longrightarrow> f64_of_int n = Fin (of_int n)"
  using is_f64_of_int [of n] by (simp add: f64_of_int_def is_f64_def)

subsection \<open>Rounding error and evaluation\<close>

lemma round_mag_error:
  assumes "0 < a"
  shows "\<bar>round_mag a - a\<bar> \<le> quantum a / 2"
proof -
  define t where "t = a / quantum a"
  have a: "a = t * quantum a" by (simp add: t_def quantum_def)
  have "\<bar>of_int (round_half_even t) - t\<bar> \<le> 1 / 2"
    using round_half_even_bounds [of t] by linarith
  then have "\<bar>of_int (round_half_even t) - t\<bar> * quantum a \<le> 1 / 2 * quantum a"
    by (rule mult_right_mono) simp
  moreover have "round_mag a - a = (of_int (round_half_even t) - t) * quantum a"
    using a by (simp add: round_mag_def t_def algebra_simps)
  ultimately show ?thesis by (simp add: abs_mult)
qed

lemma quantum_normal:
  assumes "0 < a" "- 1022 \<le> binade a"
  shows "quantum a \<le> a / 2 ^ 52"
proof -
  have q: "quantum a = 2 powi (binade a - 52)" using assms by (simp add: quantum_def max_def)
  have "(2::rat) powi (binade a - 52 + 52) = 2 powi (binade a - 52) * 2 powi 52"
    by (rule power_int_add) simp
  then have "(2::rat) powi binade a = quantum a * 2 ^ 52" by (simp add: q)
  moreover have "2 powi binade a \<le> a" using binade_bounds [OF assms(1)] by simp
  ultimately have "quantum a * 2 ^ 52 \<le> a" by simp
  then show ?thesis by (simp add: field_simps)
qed

lemma binade_normal:
  assumes "1 / 16 \<le> a"
  shows "- 1022 \<le> binade a"
proof -
  have pos: "0 < (1 / 16 :: rat)" by simp
  have "binade (1 / 16) = - 4"
    by (rule binade_unique) simp_all
  moreover have "binade (1 / 16) \<le> binade a" using pos assms by (rule binade_mono)
  ultimately show ?thesis by simp
qed

lemma round_f64_rel_error:
  assumes "1 / 16 \<le> x" "round_f64 x = Fin y"
  shows "\<bar>y - x\<bar> \<le> x / 2 ^ 53"
proof -
  have pos: "0 < x" using assms(1) by simp
  have y: "y = round_mag x"
    using assms(2) pos by (simp add: round_f64_pos split: if_splits)
  have "\<bar>round_mag x - x\<bar> \<le> quantum x / 2" using pos by (rule round_mag_error)
  moreover have "quantum x \<le> x / 2 ^ 52"
    using pos binade_normal [OF assms(1)] by (rule quantum_normal)
  ultimately show ?thesis unfolding y by simp
qed



lemma binade_less:
  assumes "0 < x" "x < 2 powi n"
  shows "binade x < n"
proof -
  have "2 powi binade x \<le> x" using binade_bounds [OF assms(1)] by simp
  then have "(2::rat) powi binade x < 2 powi n" using assms(2) by simp
  then show ?thesis by (metis not_le power_int_increasing one_le_numeral)
qed

lemma round_f64_abs_error:
  assumes "0 \<le> x" "x < 1024" "round_f64 x = Fin y"
  shows "\<bar>y - x\<bar> \<le> 1 / 2 ^ 44"
proof (cases "x = 0")
  case True
  then show ?thesis using assms(3) by simp
next
  case False
  then have pos: "0 < x" using assms(1) by simp
  have y: "y = round_mag x"
    using assms(3) pos by (simp add: round_f64_pos split: if_splits)
  have "x < 2 powi 10" using assms(2) by simp
  then have "binade x < 10" using pos by (intro binade_less)
  then have "max (binade x) (- 1022) - 52 \<le> - 43" by simp
  then have "(2::rat) powi (max (binade x) (- 1022) - 52) \<le> 2 powi (- 43)"
    by (intro power_int_increasing) simp_all
  then have q: "quantum x \<le> 1 / 2 ^ 43" by (simp add: quantum_def power_int_minus field_simps)
  have "\<bar>round_mag x - x\<bar> \<le> quantum x / 2" using pos by (rule round_mag_error)
  then show ?thesis unfolding y using q by simp
qed

lemma floor_rat_numeral [simp]: "\<lfloor>numeral a / numeral b :: rat\<rfloor> = numeral a div numeral b"
  by (metis floor_divide_of_int_eq of_int_numeral)

lemma round_f64_eval:
  assumes "0 < x" "2 powi e \<le> x" "x < 2 powi (e + 1)" "- 1022 \<le> e" "e \<le> 1022"
    and "round_half_even (x / 2 powi (e - 52)) = m"
  shows "round_f64 x = Fin (of_int m * 2 powi (e - 52))"
proof -
  have b: "binade x = e" using assms(1-3) by (rule binade_unique)
  have q: "quantum x = 2 powi (e - 52)" using assms(4) by (simp add: quantum_def b max_def)
  have rm: "round_mag x = of_int m * 2 powi (e - 52)"
    by (simp add: round_mag_def q assms(6))
  have "round_mag x \<le> 2 powi (e + 1)"
    using assms(1) by (rule round_mag_upper) (use assms(4) in \<open>simp add: b max_def\<close>)
  also have "\<dots> \<le> 2 powi 1023" using assms(5) by (intro power_int_increasing) simp_all
  also have "\<dots> < overflow_bound" by (simp add: overflow_bound_def)
  finally have "\<not> overflow_bound \<le> round_mag x" by simp
  then show ?thesis using assms(1) rm by (simp add: round_f64_pos)
qed

lemma round_f64_numeral:
  "(numeral n :: int) < 2 ^ 53 \<Longrightarrow> round_f64 (numeral n) = Fin (numeral n)"
  using is_f64_of_int [of "numeral n"] by (simp add: is_f64_def)

subsection \<open>Order and monotone operations\<close>

lemma f64_le_round_PInf [simp]: "f64_le (round_f64 x) PInf"
  by (cases "round_f64 x") simp_all

lemma f64_le_NInf_round [simp]: "f64_le NInf (round_f64 x)"
  by (cases "round_f64 x") simp_all

lemma f64_le_refl: "x \<noteq> NaN \<Longrightarrow> f64_le x x"
  by (cases x) simp_all

lemma f64_le_trans: "f64_le x y \<Longrightarrow> f64_le y z \<Longrightarrow> f64_le x z"
  by (cases x; cases y; cases z) simp_all

lemma f64_add_mono_right:
  assumes "f64_le x y"
  shows "f64_le (f64_add (Fin r) x) (f64_add (Fin r) y)"
  using assms by (cases x; cases y) (simp_all add: round_f64_mono)

lemma f64_div_mono_left:
  assumes "f64_le x y" "0 < c"
  shows "f64_le (f64_div x (Fin c)) (f64_div y (Fin c))"
  using assms by (cases x; cases y) (simp_all add: round_f64_mono divide_right_mono)

lemma f64_mul_mono_right:
  assumes "a \<le> b" "0 \<le> r"
  shows "f64_le (f64_mul (Fin r) (Fin a)) (f64_mul (Fin r) (Fin b))"
  using assms by (simp add: round_f64_mono mult_left_mono)

lemma round_f64_ge:
  assumes "is_f64 c" "c \<le> x" "round_f64 x = Fin y"
  shows "c \<le> y"
proof -
  have "f64_le (round_f64 c) (round_f64 x)" using assms(2) by (rule round_f64_mono)
  then show ?thesis using assms(1,3) by (simp add: is_f64_def)
qed

lemma is_f64_10: "is_f64 10"
  using is_f64_of_int [of 10] by simp

lemma is_f64_16th: "is_f64 (1 / 16)"
proof -
  have "round_f64 (of_int 1 * 2 powi (- 4)) = Fin (of_int 1 * 2 powi (- 4))"
    by (rule round_f64_exact) (simp_all add: overflow_bound_def)
  then show ?thesis by (simp add: is_f64_def)
qed

subsection \<open>The binary64 numbers\<close>

text \<open>
  The predicate \<^const>\<open>is_f64\<close> holds exactly of the rationals \<open>m * 2 ^ k\<close> with a significand
  below \<open>2 ^ 53\<close> in magnitude and an exponent of at least \<open>- 1074\<close>, below the overflow
  threshold; and every finite result of rounding is such a number.
\<close>

lemma is_f64_repr:
  assumes "is_f64 x"
  shows "\<exists>m k. \<bar>m\<bar> < 2 ^ 53 \<and> - 1074 \<le> k \<and> \<bar>x\<bar> < overflow_bound \<and> x = of_int m * 2 powi k"
proof -
  have pos: "\<exists>m k. 0 \<le> m \<and> m < 2 ^ 53 \<and> - 1074 \<le> k \<and> a < overflow_bound \<and> a = of_int m * 2 powi k"
    if a: "0 < a" and r: "round_mag a = a" and b: "\<not> overflow_bound \<le> a" for a
  proof -
    define e where "e = max (binade a) (- 1022)"
    define n where "n = round_half_even (a / quantum a)"
    have q: "quantum a = 2 powi (e - 52)" by (simp add: quantum_def e_def)
    have an: "a = of_int n * quantum a" using r by (simp add: round_mag_def n_def)
    have "a < 2 powi (binade a + 1)" using binade_bounds [OF a] by simp
    also have "\<dots> \<le> 2 powi (e + 1)" by (intro power_int_increasing) (simp_all add: e_def)
    also have "(2::rat) powi (e + 1) = 2 powi (e - 52 + 53)" by (simp add: add.commute)
    also have "\<dots> = 2 powi (e - 52) * 2 powi 53" by (rule power_int_add) simp
    finally have "of_int n * quantum a < quantum a * 2 ^ 53" using an by (simp add: q)
    then have "rat_of_int n < 2 ^ 53"
      using quantum_pos [of a] by (simp add: mult.commute)
    then have "rat_of_int n < of_int (2 ^ 53)" by simp
    then have n1: "n < 2 ^ 53" by (simp only: of_int_less_iff)
    have "0 < rat_of_int n * quantum a" using a an by simp
    then have "0 < rat_of_int n" using quantum_pos [of a] by (simp add: zero_less_mult_iff)
    then have n0: "0 \<le> n" by simp
    have k: "- 1074 \<le> e - 52" by (simp add: e_def)
    have lt: "a < overflow_bound" using b by simp
    have eq: "a = of_int n * 2 powi (e - 52)" using an q by simp
    show ?thesis
      by (rule exI [of _ n], rule exI [of _ "e - 52"]) (use n0 n1 k lt eq in blast)
  qed
  consider "0 < x" | "x = 0" | "x < 0" by linarith
  then show ?thesis
  proof cases
    case 1
    from assms 1 have "round_mag x = x" "\<not> overflow_bound \<le> x"
      by (auto simp: is_f64_def round_f64_pos split: if_splits)
    from pos [OF 1 this] obtain m k
      where "0 \<le> m" "m < 2 ^ 53" "- 1074 \<le> k" "x < overflow_bound" "x = of_int m * 2 powi k"
      by blast
    then have "\<bar>m\<bar> < 2 ^ 53 \<and> - 1074 \<le> k \<and> \<bar>x\<bar> < overflow_bound
        \<and> x = of_int m * 2 powi k"
      using 1 by (simp add: abs_if)
    then show ?thesis by blast
  next
    case 2
    then have "\<bar>0::int\<bar> < 2 ^ 53 \<and> - 1074 \<le> (0::int) \<and> \<bar>x\<bar> < overflow_bound
        \<and> x = of_int 0 * 2 powi 0"
      by (simp add: overflow_bound_def)
    then show ?thesis by blast
  next
    case 3
    then have nx: "0 < - x" by simp
    from assms 3 have "round_mag (- x) = - x" "\<not> overflow_bound \<le> - x"
      by (auto simp: is_f64_def round_f64_neg split: if_splits)
    from pos [OF nx this] obtain m k
      where "0 \<le> m" "m < 2 ^ 53" "- 1074 \<le> k" "- x < overflow_bound" "- x = of_int m * 2 powi k"
      by blast
    then have "\<bar>- m\<bar> < 2 ^ 53 \<and> - 1074 \<le> k \<and> \<bar>x\<bar> < overflow_bound
        \<and> x = of_int (- m) * 2 powi k"
      using 3 by (simp add: abs_if)
    then show ?thesis by blast
  qed
qed

lemma is_f64_iff:
  "is_f64 x \<longleftrightarrow>
     (\<exists>m k. \<bar>m\<bar> < 2 ^ 53 \<and> - 1074 \<le> k \<and> \<bar>x\<bar> < overflow_bound \<and> x = of_int m * 2 powi k)"
  using is_f64_repr [of x] round_f64_exact by (auto simp: is_f64_def)



section \<open>The impact simulation\<close>

text \<open>
  The handler of the button "Run Impact Simulation" (lines 142 to 148 of \<^verbatim>\<open>app.py\<close>):
  \<^verbatim>\<open>
    base_revenue = st.number_input(..., min_value=10.0, value=500.0, step=10.0, key="rev")
    invest_pct = st.slider(..., 0, 50, 8, key="improve")
    uplift = base_revenue * invest_pct / 100.0
    projected = base_revenue + uplift
  \<close>
  \<open>base_revenue\<close> is a float that the widget keeps at or above \<open>10.0\<close>; \<open>invest_pct\<close> is
  an \<^verbatim>\<open>int\<close> between 0 and 50, converted to float by the multiplication. Each of the three
  operations rounds its result.
\<close>

definition uplift :: "rat \<Rightarrow> int \<Rightarrow> f64" where
  "uplift base_revenue invest_pct =
     f64_div (f64_mul (Fin base_revenue) (f64_of_int invest_pct)) (Fin 100)"

definition projected :: "rat \<Rightarrow> int \<Rightarrow> f64" where
  "projected base_revenue invest_pct =
     f64_add (Fin base_revenue) (uplift base_revenue invest_pct)"

lemma uplift_zero: "uplift r 0 = Fin 0"
  by (simp add: uplift_def f64_of_int_small)

lemma projected_zero: "is_f64 r \<Longrightarrow> projected r 0 = Fin r"
  by (simp add: projected_def uplift_zero is_f64_def)

lemma uplift_mono:
  assumes "0 \<le> r" "0 \<le> p1" "p1 \<le> p2" "p2 \<le> 50"
  shows "f64_le (uplift r p1) (uplift r p2)"
proof -
  have 1: "f64_of_int p1 = Fin (of_int p1)" using assms by (intro f64_of_int_small) simp
  have 2: "f64_of_int p2 = Fin (of_int p2)" using assms by (intro f64_of_int_small) simp
  have "f64_le (f64_mul (Fin r) (Fin (of_int p1))) (f64_mul (Fin r) (Fin (of_int p2)))"
    using assms by (intro f64_mul_mono_right) simp_all
  then show ?thesis
    unfolding uplift_def 1 2 by (rule f64_div_mono_left) simp
qed

lemma projected_mono:
  assumes "0 \<le> r" "0 \<le> p1" "p1 \<le> p2" "p2 \<le> 50"
  shows "f64_le (projected r p1) (projected r p2)"
  unfolding projected_def using uplift_mono [OF assms] by (rule f64_add_mono_right)

lemma uplift_nonneg:
  assumes "0 \<le> r" "0 \<le> pct" "pct \<le> 50"
  shows "f64_le (Fin 0) (uplift r pct)"
proof -
  have "f64_le (uplift r 0) (uplift r pct)"
    using assms(1) _ assms(2,3) by (rule uplift_mono) simp
  then show ?thesis by (simp add: uplift_zero)
qed

lemma projected_ge_base:
  assumes "is_f64 r" "0 \<le> r" "0 \<le> pct" "pct \<le> 50"
  shows "f64_le (Fin r) (projected r pct)"
proof -
  have "f64_le (projected r 0) (projected r pct)"
    using assms(2) _ assms(3,4) by (rule projected_mono) simp
  then show ?thesis using assms(1) by (simp add: projected_zero)
qed

lemma impact_error:
  assumes r: "10 \<le> r" and pct: "1 \<le> pct" "pct \<le> 50"
    and p: "projected r pct = Fin p"
  shows "\<exists>u. uplift r pct = Fin u
           \<and> \<bar>p - r * (1 + of_int pct / 100)\<bar> \<le> r * (1 + of_int pct / 100) / 2 ^ 51
           \<and> \<bar>u - (p - r)\<bar> \<le> r * (1 + of_int pct / 100) / 2 ^ 52"
proof -
  define a where "a = r * of_int pct"
  have conv: "f64_of_int pct = Fin (of_int pct)" using pct by (intro f64_of_int_small) simp
  have "1 \<le> rat_of_int pct" using pct(1) by simp
  then have "r * 1 \<le> r * rat_of_int pct" using r by (intro mult_left_mono) simp_all
  then have a10: "10 \<le> a" using r unfolding a_def by linarith
  have up: "uplift r pct = f64_div (round_f64 a) (Fin 100)"
    by (simp add: uplift_def conv a_def)
  obtain u where u: "uplift r pct = Fin u"
    using p by (cases "uplift r pct") (simp_all add: projected_def)
  obtain a' where a': "round_f64 a = Fin a'"
    using u up by (cases "round_f64 a") (simp_all add: signed_inf_def)
  have a'10: "10 \<le> a'" using is_f64_10 a10 a' by (rule round_f64_ge)
  have ea: "\<bar>a' - a\<bar> \<le> a / 2 ^ 53"
    using _ a' by (rule round_f64_rel_error) (use a10 in simp)
  define b where "b = a' / 100"
  have ub: "round_f64 b = Fin u" using u up a' by (simp add: b_def)
  have b16: "1 / 16 \<le> b" using a'10 by (simp add: b_def)
  have eb: "\<bar>u - b\<bar> \<le> b / 2 ^ 53" using b16 ub by (rule round_f64_rel_error)
  have u16: "1 / 16 \<le> u" using is_f64_16th b16 ub by (rule round_f64_ge)
  define c where "c = r + u"
  have pc: "round_f64 c = Fin p" using p u by (simp add: projected_def c_def)
  have c16: "1 / 16 \<le> c" using r u16 by (simp add: c_def)
  have ec: "\<bar>p - c\<bar> \<le> c / 2 ^ 53" using c16 pc by (rule round_f64_rel_error)
  have E: "r * (1 + of_int pct / 100) = r + a / 100"
    by (simp add: a_def algebra_simps)
  have 1: "\<bar>p - (r + a / 100)\<bar> \<le> (r + a / 100) / 2 ^ 51"
    using ea eb ec r a10 unfolding b_def c_def abs_le_iff by simp
  have 2: "\<bar>u - (p - r)\<bar> \<le> (r + a / 100) / 2 ^ 52"
    using ea eb ec r a10 unfolding b_def c_def abs_le_iff by simp
  show ?thesis using u 1 2 unfolding E by simp
qed

lemma uplift_10_1: "uplift 10 1 = Fin (3602879701896397 / 36028797018963968)"
proof -
  have "round_f64 (1 / 10) = Fin (of_int 7205759403792794 * 2 powi (- 4 - 52))"
    by (rule round_f64_eval) (simp_all add: round_half_even_def Let_def)
  then show ?thesis
    by (simp add: uplift_def f64_of_int_small is_f64_of_int [of 10, unfolded is_f64_def, simplified])
qed


lemma projected_10_1: "projected 10 1 = Fin (5685794529555251 / 562949953421312)"
proof -
  have "round_f64 (10 + 3602879701896397 / 36028797018963968)
      = Fin (of_int 5685794529555251 * 2 powi (3 - 52))"
    by (rule round_f64_eval) (simp_all add: round_half_even_def Let_def)
  then show ?thesis
    by (simp add: projected_def uplift_10_1)
qed

text \<open>
  Claim C8. For every base revenue \<open>r \<ge> 10\<close> (a binary64 number), a percentage of 0
  produces an uplift of exactly 0 and a projected revenue equal to the base revenue.
\<close>

theorem C8_zero_percentage:
  assumes "is_f64 r" "10 \<le> r"
  shows "uplift r 0 = Fin 0 \<and> projected r 0 = Fin r"
  using assms(1) by (simp add: uplift_zero projected_zero)

theorem C8_zero_percentage_witness:
  "is_f64 500 \<and> (10::rat) \<le> 500 \<and> uplift 500 0 = Fin 0 \<and> projected 500 0 = Fin 500"
proof -
  have f: "is_f64 500" using is_f64_of_int [of 500] by simp
  have g: "(10::rat) \<le> 500" by simp
  from C8_zero_percentage [OF f g] f g show ?thesis by simp
qed

text \<open>
  Claim C10. For a fixed base revenue \<open>r \<ge> 10\<close> the projected revenue is monotone
  nondecreasing in the improvement percentage: for \<open>0 \<le> pct1 \<le> pct2 \<le> 50\<close>,
  \<open>projected r pct1 <= projected r pct2\<close> in the comparison of floats. Rounding does not
  disturb the order, because rounding to nearest is itself monotone.
\<close>

theorem C10_projected_monotone:
  assumes "10 \<le> r" "0 \<le> pct1" "pct1 \<le> pct2" "pct2 \<le> 50"
  shows "f64_le (projected r pct1) (projected r pct2)"
proof -
  from assms(1) have "0 \<le> r" by simp
  then show ?thesis using assms(2-4) by (rule projected_mono)
qed

theorem C10_projected_monotone_witness:
  "(10::rat) \<le> 500 \<and> (0::int) \<le> 8 \<and> (8::int) \<le> 20 \<and> (20::int) \<le> 50
   \<and> f64_le (projected 500 8) (projected 500 20)"
proof -
  have a: "(10::rat) \<le> 500" and b: "(0::int) \<le> 8" and c: "(8::int) \<le> 20" and d: "(20::int) \<le> 50"
    by simp_all
  from C10_projected_monotone [OF a b c d] show ?thesis by simp
qed

text \<open>
  Claim C4 says that for every base revenue \<open>r \<ge> 10\<close> and percentage in \<open>[0,50]\<close> the
  handler yields \<open>projected = r * (1 + pct/100)\<close> and \<open>uplift = projected - r\<close>, with
  \<open>uplift \<ge> 0\<close>. The handler computes in binary64, where every operation rounds: at
  \<open>r = 10.0\<close>, \<open>pct = 1\<close> the uplift is the float \<open>0.1\<close>, the projected revenue is the
  float \<open>10.1\<close>, and \<open>projected - r\<close> is \<open>0.09999999999999964\<close> (the subtraction is exact),
  which is not the uplift; nor is the float \<open>10.1\<close> the rational \<open>101/10\<close>.
\<close>

theorem C4_exact_formula_counterexample:
  "is_f64 10 \<and> (10::rat) \<le> 10 \<and> (0::int) \<le> 1 \<and> (1::int) \<le> 50
   \<and> uplift 10 1 = Fin (3602879701896397 / 36028797018963968)
   \<and> projected 10 1 = Fin (5685794529555251 / 562949953421312)
   \<and> (5685794529555251 / 562949953421312 :: rat) \<noteq> 10 * (1 + 1 / 100)
   \<and> (3602879701896397 / 36028797018963968 :: rat) \<noteq> 5685794529555251 / 562949953421312 - 10
   \<and> f64_add (Fin (5685794529555251 / 562949953421312)) (Fin (- 10))
       = Fin (56294995342131 / 562949953421312)"
proof -
  have "round_f64 (of_int 56294995342131 * 2 powi (- 49)) = Fin (of_int 56294995342131 * 2 powi (- 49))"
    by (rule round_f64_exact) (simp_all add: overflow_bound_def)
  then have "f64_add (Fin (5685794529555251 / 562949953421312)) (Fin (- 10))
       = Fin (56294995342131 / 562949953421312)"
    by simp
  then show ?thesis using is_f64_10 uplift_10_1 projected_10_1 by simp
qed

text \<open>
  Claim C4, amended. For every binary64 base revenue \<open>r \<ge> 10\<close> and every percentage in
  \<open>[0,50]\<close>: the uplift is at least 0 and the projected revenue at least \<open>r\<close>; and
  whenever the projected revenue is finite (no overflow), so is the uplift, the projected
  revenue differs from \<open>r * (1 + pct/100)\<close> by at most the fraction \<open>2^-51\<close> of it, and the
  uplift differs from \<open>projected - r\<close> by at most the fraction \<open>2^-52\<close> of it.
\<close>

theorem C4_impact_up_to_rounding:
  assumes "is_f64 r" "10 \<le> r" "0 \<le> pct" "pct \<le> 50"
  shows "f64_le (Fin 0) (uplift r pct) \<and> f64_le (Fin r) (projected r pct) \<and>
    (\<forall>p. projected r pct = Fin p \<longrightarrow>
       (\<exists>u. uplift r pct = Fin u
          \<and> \<bar>p - r * (1 + of_int pct / 100)\<bar> \<le> r * (1 + of_int pct / 100) / 2 ^ 51
          \<and> \<bar>u - (p - r)\<bar> \<le> r * (1 + of_int pct / 100) / 2 ^ 52))"
proof (intro conjI allI impI)
  from assms(2) have r0: "0 \<le> r" by simp
  show "f64_le (Fin 0) (uplift r pct)" using r0 assms(3,4) by (rule uplift_nonneg)
  show "f64_le (Fin r) (projected r pct)" using assms(1) r0 assms(3,4) by (rule projected_ge_base)
  fix p
  assume p: "projected r pct = Fin p"
  show "\<exists>u. uplift r pct = Fin u
          \<and> \<bar>p - r * (1 + of_int pct / 100)\<bar> \<le> r * (1 + of_int pct / 100) / 2 ^ 51
          \<and> \<bar>u - (p - r)\<bar> \<le> r * (1 + of_int pct / 100) / 2 ^ 52"
  proof (cases "pct = 0")
    case True
    with p assms(1) have "p = r" by (simp add: projected_zero)
    then show ?thesis using True r0 by (simp add: uplift_zero)
  next
    case False
    with assms(3) have "1 \<le> pct" by simp
    with assms(2) show ?thesis using assms(4) p by (rule impact_error)
  qed
qed

theorem C4_impact_up_to_rounding_witness:
  "is_f64 500 \<and> (10::rat) \<le> 500 \<and> (0::int) \<le> 8 \<and> (8::int) \<le> 50
   \<and> uplift 500 8 = Fin 40 \<and> projected 500 8 = Fin 540
   \<and> f64_le (Fin 0) (uplift 500 8) \<and> f64_le (Fin 500) (projected 500 8)
   \<and> (\<exists>u. uplift 500 8 = Fin u
          \<and> \<bar>540 - 500 * (1 + of_int 8 / 100)\<bar> \<le> 500 * (1 + of_int 8 / 100) / (2 ^ 51 :: rat)
          \<and> \<bar>u - (540 - 500)\<bar> \<le> 500 * (1 + of_int 8 / 100) / 2 ^ 52)"
proof -
  have f: "is_f64 500" using is_f64_of_int [of 500] by simp
  have a: "(10::rat) \<le> 500" and b: "(0::int) \<le> 8" and c: "(8::int) \<le> 50" by simp_all
  have u: "uplift 500 8 = Fin 40"
    by (simp add: uplift_def f64_of_int_small round_f64_numeral)
  have p: "projected 500 8 = Fin 540"
    by (simp add: projected_def u round_f64_numeral)
  from C4_impact_up_to_rounding [OF f a b c] p
  have "f64_le (Fin 0) (uplift 500 8) \<and> f64_le (Fin 500) (projected 500 8)
   \<and> (\<exists>u. uplift 500 8 = Fin u
          \<and> \<bar>540 - 500 * (1 + of_int 8 / 100)\<bar> \<le> 500 * (1 + of_int 8 / 100) / (2 ^ 51 :: rat)
          \<and> \<bar>u - (540 - 500)\<bar> \<le> 500 * (1 + of_int 8 / 100) / 2 ^ 52)"
    by blast
  with f a b c u p show ?thesis by blast
qed

section \<open>Library functions used by the series generator\<close>

datatype py_error = ValueError | OutOfBoundsDatetime | IndexError

subsection \<open>More float operations\<close>

fun f64_neg :: "f64 \<Rightarrow> f64" where
  "f64_neg (Fin a) = Fin (- a)"
| "f64_neg PInf = NInf"
| "f64_neg NInf = PInf"
| "f64_neg NaN = NaN"

definition f64_sub :: "f64 \<Rightarrow> f64 \<Rightarrow> f64" where
  "f64_sub x y = f64_add x (f64_neg y)"

text \<open>\<^verbatim>\<open>numpy.rint\<close>: the nearest integer, ties to even, as a float.\<close>

fun f64_rint :: "f64 \<Rightarrow> f64" where
  "f64_rint (Fin a) = round_f64 (of_int (round_half_even a))"
| "f64_rint x = x"

text \<open>
  \<^verbatim>\<open>numpy.round(x, decimals)\<close> for \<open>decimals \<ge> 0\<close>: multiply by \<open>10 ^ decimals\<close>, round to
  an integer, divide again; all three in binary64.
\<close>

definition np_round :: "f64 \<Rightarrow> nat \<Rightarrow> f64" where
  "np_round x decimals =
     (let f = f64_of_int (10 ^ decimals) in f64_div (f64_rint (f64_mul x f)) f)"

text \<open>
  Clipping one cell as \<^verbatim>\<open>DataFrame.clip(lower, upper)\<close> does: a value below the lower bound
  becomes the bound, a value above the upper bound becomes that bound, NaN stays.
\<close>

definition f64_clip :: "f64 \<Rightarrow> f64 \<Rightarrow> f64 \<Rightarrow> f64" where
  "f64_clip lower upper x =
     (if x = NaN then x
      else if \<not> f64_le lower x then lower
      else if \<not> f64_le x upper then upper
      else x)"

subsection \<open>\<^verbatim>\<open>numpy.linspace\<close>\<close>

text \<open>
  \<^verbatim>\<open>numpy.linspace(start, stop, num)\<close> with the default \<^verbatim>\<open>endpoint=True\<close>, as numpy computes it:
  \<^verbatim>\<open>
    if num < 0: raise ValueError
    div = num - 1
    delta = stop - start
    y = arange(0, num)
    if div > 0:
        step = delta / div
        if step == 0: y = y / div; y = y * delta
        else:         y = y * step
    else:
        y = y * delta
    y += start
    if num > 1: y[-1] = stop
  \<close>
\<close>

definition linspace_item :: "f64 \<Rightarrow> f64 \<Rightarrow> int \<Rightarrow> int \<Rightarrow> f64" where
  "linspace_item start delta dv i =
     (let y = f64_of_int i;
          scaled =
            (if 0 < dv then
               (let step = f64_div delta (f64_of_int dv)
                in if step = Fin 0 then f64_mul (f64_div y (f64_of_int dv)) delta
                   else f64_mul y step)
             else f64_mul y delta)
      in f64_add scaled start)"

definition np_linspace :: "f64 \<Rightarrow> f64 \<Rightarrow> int \<Rightarrow> py_error + f64 list" where
  "np_linspace start stop num =
     (if num < 0 then Inl ValueError
      else let dv = num - 1;
               delta = f64_sub stop start;
               y = map (linspace_item start delta dv) [0..num - 1]
           in Inr (if 1 < num then butlast y @ [stop] else y))"

subsection \<open>The global random generator of numpy\<close>

text \<open>
  The legacy generator behind \<^verbatim>\<open>numpy.random.seed\<close> and \<^verbatim>\<open>numpy.random.normal\<close> is a
  parameter of the model: \<open>mt_seed\<close> initialises its state from a 32-bit seed and \<open>gauss\<close>
  draws one standard normal deviate and advances the state. A deviate is a binary64
  number, never NaN; it is given as a rational and rounded to binary64 where it is used.
\<close>

record 'g np_random =
  mt_seed :: "nat \<Rightarrow> 'g"
  gauss :: "'g \<Rightarrow> rat \<times> 'g"

text \<open>\<^verbatim>\<open>numpy.random.seed(seed)\<close> accepts an integer between 0 and \<open>2^32 - 1\<close>.\<close>

definition np_random_seed :: "'g np_random \<Rightarrow> int \<Rightarrow> py_error + 'g" where
  "np_random_seed lib seed =
     (if 0 \<le> seed \<and> seed < 2 ^ 32 then Inr (mt_seed lib (nat seed)) else Inl ValueError)"

text \<open>
  \<^verbatim>\<open>numpy.random.normal(loc, scale, (rows, cols))\<close> fills the array in row-major order,
  each cell with \<open>loc + scale * gauss()\<close>.
\<close>

fun normal_row :: "'g np_random \<Rightarrow> f64 \<Rightarrow> f64 \<Rightarrow> nat \<Rightarrow> 'g \<Rightarrow> f64 list \<times> 'g" where
  "normal_row lib loc scale 0 g = ([], g)"
| "normal_row lib loc scale (Suc n) g =
     (let (z, g1) = gauss lib g;
          x = f64_add loc (f64_mul scale (round_f64 z));
          (xs, g2) = normal_row lib loc scale n g1
      in (x # xs, g2))"

fun np_random_normal ::
  "'g np_random \<Rightarrow> f64 \<Rightarrow> f64 \<Rightarrow> nat \<Rightarrow> nat \<Rightarrow> 'g \<Rightarrow> f64 list list \<times> 'g" where
  "np_random_normal lib loc scale 0 cols g = ([], g)"
| "np_random_normal lib loc scale (Suc rows) cols g =
     (let (r, g1) = normal_row lib loc scale cols g;
          (rs, g2) = np_random_normal lib loc scale rows cols g1
      in (r # rs, g2))"

subsection \<open>Calendar dates and \<^verbatim>\<open>pandas.date_range\<close>\<close>

record date =
  year :: int
  month :: int
  day :: int

record datetime = date +
  hour :: int
  minute :: int
  second :: int

definition date_less :: "date \<Rightarrow> date \<Rightarrow> bool" where
  "date_less a b =
     (year a < year b \<or> (year a = year b \<and>
        (month a < month b \<or> (month a = month b \<and> day a < day b))))"

definition is_leap :: "int \<Rightarrow> bool" where
  "is_leap y = (y mod 4 = 0 \<and> (y mod 100 \<noteq> 0 \<or> y mod 400 = 0))"

definition days_in_month :: "int \<Rightarrow> int \<Rightarrow> int" where
  "days_in_month y m =
     (if m = 2 then (if is_leap y then 29 else 28)
      else if m = 4 \<or> m = 6 \<or> m = 9 \<or> m = 11 then 30 else 31)"

definition valid_date :: "date \<Rightarrow> bool" where
  "valid_date d =
     (1 \<le> year d \<and> year d \<le> 9999 \<and> 1 \<le> month d \<and> month d \<le> 12
      \<and> 1 \<le> day d \<and> day d \<le> days_in_month (year d) (month d))"

text \<open>Months are counted from year 0: month \<open>n\<close> is month \<open>n mod 12 + 1\<close> of year \<open>n div 12\<close>.\<close>

definition month_ordinal :: "date \<Rightarrow> int" where
  "month_ordinal d = 12 * year d + (month d - 1)"

definition month_end :: "int \<Rightarrow> date" where
  "month_end n =
     \<lparr>year = n div 12, month = n mod 12 + 1, day = days_in_month (n div 12) (n mod 12 + 1)\<rparr>"

text \<open>\<^verbatim>\<open>MonthEnd.is_on_offset\<close> and \<^verbatim>\<open>MonthEnd.rollback\<close>.\<close>

definition is_month_end :: "date \<Rightarrow> bool" where
  "is_month_end d = (day d = days_in_month (year d) (month d))"

definition rollback :: "date \<Rightarrow> date" where
  "rollback d = (if is_month_end d then d else month_end (month_ordinal d - 1))"

text \<open>
  A pandas timestamp counts nanoseconds in 64 bits: midnight of a day is representable from
  1677-09-22 to 2262-04-11, and a date outside raises \<^verbatim>\<open>OutOfBoundsDatetime\<close>.
\<close>

definition in_ns_bounds :: "date \<Rightarrow> bool" where
  "in_ns_bounds d =
     (\<not> date_less d \<lparr>year = 1677, month = 9, day = 22\<rparr>
      \<and> \<not> date_less \<lparr>year = 2262, month = 4, day = 11\<rparr> d)"

text \<open>
  \<^verbatim>\<open>pandas.date_range(end=end, periods=periods, freq='M')\<close>: the end is rolled back to a
  month end, the start is \<open>periods - 1\<close> month ends earlier, and the range holds every
  month end from the start to the end.
\<close>

definition pd_date_range_M :: "date \<Rightarrow> int \<Rightarrow> py_error + date list" where
  "pd_date_range_M end periods =
     (if periods < 0 then Inl ValueError
      else if \<not> in_ns_bounds end then Inl OutOfBoundsDatetime
      else let e = rollback end;
               s = month_end (month_ordinal e - (periods - 1))
           in if \<not> in_ns_bounds e \<or> \<not> in_ns_bounds s then Inl OutOfBoundsDatetime
              else Inr (map month_end [month_ordinal s..month_ordinal e]))"

subsection \<open>Data frames\<close>

record 'i dataframe =
  df_columns :: "string list"
  df_index :: "'i list"
  df_values :: "f64 list list"

text \<open>\<^verbatim>\<open>pandas.DataFrame(values, columns=cols)\<close>: one row per row of the array, numbered from 0.\<close>

definition pd_DataFrame :: "f64 list list \<Rightarrow> string list \<Rightarrow> py_error + int dataframe" where
  "pd_DataFrame vals cols =
     (if \<forall>r \<in> set vals. length r = length cols
      then Inr \<lparr>df_columns = cols, df_index = [0..int (length vals) - 1], df_values = vals\<rparr>
      else Inl ValueError)"

text \<open>The assignment \<^verbatim>\<open>df.index = labels\<close>.\<close>

definition set_index :: "'i dataframe \<Rightarrow> 'j list \<Rightarrow> py_error + 'j dataframe" where
  "set_index df labels =
     (if length labels = length (df_values df)
      then Inr \<lparr>df_columns = df_columns df, df_index = labels, df_values = df_values df\<rparr>
      else Inl ValueError)"

definition df_clip :: "'i dataframe \<Rightarrow> f64 \<Rightarrow> f64 \<Rightarrow> 'i dataframe" where
  "df_clip df lower upper = df\<lparr>df_values := map (map (f64_clip lower upper)) (df_values df)\<rparr>"

definition df_round :: "'i dataframe \<Rightarrow> nat \<Rightarrow> 'i dataframe" where
  "df_round df decimals = df\<lparr>df_values := map (map (\<lambda>x. np_round x decimals)) (df_values df)\<rparr>"

text \<open>\<^verbatim>\<open>base.reshape(-1,1) + noise\<close>: the column vector is added to every column of the matrix.\<close>

definition broadcast_add :: "f64 list \<Rightarrow> f64 list list \<Rightarrow> f64 list list" where
  "broadcast_add base noise = map (\<lambda>(b, row). map (f64_add b) row) (zip base noise)"

section \<open>The series generator\<close>

text \<open>
  \<^verbatim>\<open>
  def generate_time_series(seed=0, periods=12):
      np.random.seed(seed)
      base = np.linspace(60, 85, periods)
      noise = np.random.normal(0, 4, (periods, 3))
      cols = ['Governance', 'ESG', 'Finance']
      df = pd.DataFrame(base.reshape(-1,1) + noise, columns=cols)
      df.index = pd.date_range(end=datetime.utcnow().date(), periods=periods, freq='M')
      return df.clip(0,100).round(1)
  \<close>
  The function reads and replaces the state of the global random generator and reads the
  clock; both are explicit here. It returns the frame or the exception raised, and the
  state the generator is left in.
\<close>

definition generate_time_series ::
  "'g np_random \<Rightarrow> int \<Rightarrow> int \<Rightarrow> 'g \<Rightarrow> datetime \<Rightarrow> (py_error + date dataframe) \<times> 'g" where
  "generate_time_series lib seed periods g utcnow =
     (case np_random_seed lib seed of
        Inl e \<Rightarrow> (Inl e, g)
      | Inr g1 \<Rightarrow>
          (case np_linspace (f64_of_int 60) (f64_of_int 85) periods of
             Inl e \<Rightarrow> (Inl e, g1)
           | Inr base \<Rightarrow>
               (let (noise, g2) = np_random_normal lib (f64_of_int 0) (f64_of_int 4) (nat periods) 3 g1;
                    cols = [''Governance'', ''ESG'', ''Finance'']
                in (case pd_DataFrame (broadcast_add base noise) cols of
                      Inl e \<Rightarrow> (Inl e, g2)
                    | Inr df \<Rightarrow>
                        (case pd_date_range_M (date.truncate utcnow) periods of
                           Inl e \<Rightarrow> (Inl e, g2)
                         | Inr dates \<Rightarrow>
                             (case set_index df dates of
                                Inl e \<Rightarrow> (Inl e, g2)
                              | Inr df' \<Rightarrow> (Inr (df_round (df_clip df' (f64_of_int 0) (f64_of_int 100)) 1), g2)))))))"

text \<open>A small deterministic generator, to run the model on concrete inputs.\<close>

definition demo_random :: "nat np_random" where
  "demo_random = \<lparr>mt_seed = (\<lambda>s. s), gauss = (\<lambda>g. (of_nat (g mod 5) - 2, Suc g))\<rparr>"

subsection \<open>Month ends\<close>

lemma month_ordinal_month_end [simp]: "month_ordinal (month_end n) = n"
  by (simp add: month_ordinal_def month_end_def)

lemma is_month_end_month_end [simp]: "is_month_end (month_end n)"
  by (simp add: is_month_end_def month_end_def)

lemma month_end_month_ordinal:
  assumes "is_month_end d" "1 \<le> month d" "month d \<le> 12"
  shows "month_end (month_ordinal d) = d"
proof -
  have "(12 * year d + (month d - 1)) div 12 = year d"
    using assms(2,3) by (simp add: div_pos_pos_trivial)
  moreover have "(12 * year d + (month d - 1)) mod 12 + 1 = month d"
    using assms(2,3) by (simp add: mod_pos_pos_trivial)
  ultimately show ?thesis using assms(1)
    by (simp add: month_end_def month_ordinal_def is_month_end_def)
qed

lemma date_less_irrefl [simp]: "\<not> date_less d d"
  by (simp add: date_less_def)

lemma date_less_trans: "date_less a b \<Longrightarrow> date_less b c \<Longrightarrow> date_less a c"
  by (auto simp: date_less_def)

lemma date_less_asym: "date_less a b \<Longrightarrow> \<not> date_less b a"
  by (auto simp: date_less_def)

lemma month_end_strict_mono:
  assumes "m < n"
  shows "date_less (month_end m) (month_end n)"
proof -
  have "m div 12 \<le> n div 12" using assms by (simp add: zdiv_mono1)
  moreover have "m div 12 = n div 12 \<Longrightarrow> m mod 12 < n mod 12"
    using assms div_mult_mod_eq [of m 12] div_mult_mod_eq [of n 12] by linarith
  ultimately have "m div 12 < n div 12 \<or> (m div 12 = n div 12 \<and> m mod 12 < n mod 12)"
    by linarith
  then show ?thesis by (auto simp: date_less_def month_end_def)
qed

lemma date_less_month_end_iff: "date_less (month_end m) (month_end n) \<longleftrightarrow> m < n"
proof
  assume l: "date_less (month_end m) (month_end n)"
  show "m < n"
  proof (rule ccontr)
    assume "\<not> m < n"
    then consider "n = m" | "n < m" by linarith
    then show False
    proof cases
      case 1
      with l show False by simp
    next
      case 2
      then have "date_less (month_end n) (month_end m)" by (rule month_end_strict_mono)
      with l show False by (simp add: date_less_asym)
    qed
  qed
next
  assume "m < n"
  then show "date_less (month_end m) (month_end n)" by (rule month_end_strict_mono)
qed

lemma days_in_month_ge: "28 \<le> days_in_month y m"
  by (simp add: days_in_month_def)

lemma in_ns_bounds_month_end:
  assumes "in_ns_bounds (month_end n)"
  shows "1677 * 12 \<le> n \<and> n < 2263 * 12"
proof -
  from assms have "1677 \<le> n div 12" "n div 12 \<le> 2262"
    by (auto simp: in_ns_bounds_def date_less_def month_end_def)
  moreover have "0 \<le> n mod 12" "n mod 12 < 12" by simp_all
  ultimately show ?thesis using div_mult_mod_eq [of n 12] by linarith
qed

lemma rollback_month_end [simp]: "is_month_end (rollback d)"
  by (simp add: rollback_def)

lemma rollback_not_after:
  assumes "valid_date d"
  shows "\<not> date_less d (rollback d)"
proof (cases "is_month_end d")
  case True
  then show ?thesis by (simp add: rollback_def)
next
  case False
  define n where "n = month_ordinal d"
  have m: "1 \<le> month d" "month d \<le> 12" using assms by (simp_all add: valid_date_def)
  have y: "n div 12 = year d"
    unfolding n_def month_ordinal_def using m by (simp add: div_pos_pos_trivial)
  have mo: "n mod 12 + 1 = month d"
    unfolding n_def month_ordinal_def using m by (simp add: mod_pos_pos_trivial)
  have "date_less (month_end (n - 1)) (month_end n)" by (rule month_end_strict_mono) simp
  moreover have "day d \<le> days_in_month (year d) (month d)"
    using assms by (simp add: valid_date_def)
  ultimately have "date_less (month_end (n - 1)) d"
    using False y mo unfolding date_less_def month_end_def is_month_end_def by auto
  then show ?thesis using False by (simp add: rollback_def n_def date_less_asym)
qed

lemma month_ordinal_rollback:
  assumes "1 \<le> month d" "month d \<le> 12"
  shows "month_ordinal (rollback d) = (if is_month_end d then month_ordinal d else month_ordinal d - 1)"
  by (simp add: rollback_def)

subsection \<open>The date range\<close>

lemma date_range_Inr:
  assumes "pd_date_range_M t p = Inr ds"
  shows "0 \<le> p" "in_ns_bounds t" "in_ns_bounds (rollback t)"
    "in_ns_bounds (month_end (month_ordinal (rollback t) - (p - 1)))"
    "ds = map month_end [month_ordinal (rollback t) - (p - 1)..month_ordinal (rollback t)]"
  using assms by (auto simp: pd_date_range_M_def Let_def split: if_splits)

lemma date_range_length:
  assumes "pd_date_range_M t p = Inr ds"
  shows "length ds = nat p"
  using date_range_Inr(1,5) [OF assms] by simp

lemma date_range_nth:
  assumes "pd_date_range_M t p = Inr ds" "i < length ds"
  shows "ds ! i = month_end (month_ordinal (rollback t) - (p - 1) + int i)"
  using date_range_Inr(1,5) [OF assms(1)] assms(2) by simp

lemma date_range_periods_bound:
  assumes "pd_date_range_M t p = Inr ds" "valid_date t"
  shows "p \<le> 7032"
proof -
  have m: "1 \<le> month t" "month t \<le> 12" using assms(2) by (simp_all add: valid_date_def)
  from date_range_Inr(2) [OF assms(1)] have "year t \<le> 2262"
    by (auto simp: in_ns_bounds_def date_less_def)
  then have "month_ordinal t < 2263 * 12" using m by (simp add: month_ordinal_def)
  then have "month_ordinal (rollback t) < 2263 * 12"
    using month_ordinal_rollback [OF m] by (simp split: if_splits)
  moreover have "1677 * 12 \<le> month_ordinal (rollback t) - (p - 1)"
    using in_ns_bounds_month_end [OF date_range_Inr(4) [OF assms(1)]] by simp
  ultimately show ?thesis by simp
qed

lemma date_range_last:
  assumes "pd_date_range_M t p = Inr ds" "1 \<le> p" "valid_date t"
  shows "last ds = rollback t"
proof -
  have m: "1 \<le> month t" "month t \<le> 12" using assms(3) by (simp_all add: valid_date_def)
  have len: "length ds = nat p" using assms(1) by (rule date_range_length)
  then have ne: "ds \<noteq> []" using assms(2) by auto
  have "last ds = ds ! (length ds - 1)" using ne by (simp add: last_conv_nth)
  also have "\<dots> = month_end (month_ordinal (rollback t) - (p - 1) + int (length ds - 1))"
    using assms(1) by (rule date_range_nth) (use ne in simp)
  also have "month_ordinal (rollback t) - (p - 1) + int (length ds - 1) = month_ordinal (rollback t)"
    using len assms(2) by simp
  also have "month_end (month_ordinal (rollback t)) = rollback t"
  proof (cases "is_month_end t")
    case True
    then show ?thesis using m by (simp add: rollback_def month_end_month_ordinal)
  next
    case False
    then show ?thesis by (simp add: rollback_def)
  qed
  finally show ?thesis .
qed

lemma date_range_ascending:
  assumes "pd_date_range_M t p = Inr ds" "i < j" "j < length ds"
  shows "date_less (ds ! i) (ds ! j)"
proof -
  have "i < length ds" using assms(2,3) by simp
  then show ?thesis
    using assms by (simp add: date_range_nth [OF assms(1)] date_less_month_end_iff)
qed

lemma date_range_month_ends:
  assumes "pd_date_range_M t p = Inr ds" "d \<in> set ds"
  shows "is_month_end d"
  using date_range_Inr(5) [OF assms(1)] assms(2) by auto

subsection \<open>The default call always returns\<close>

lemma in_ns_bounds_year:
  "1678 \<le> year d \<Longrightarrow> year d \<le> 2261 \<Longrightarrow> in_ns_bounds d"
  by (auto simp: in_ns_bounds_def date_less_def)

lemma year_month_end: "year (month_end n) = n div 12"
  by (simp add: month_end_def)

lemma date_range_exists:
  assumes "valid_date t" "1679 \<le> year t" "year t \<le> 2261" "1 \<le> p" "p \<le> 12"
  shows "\<exists>dates. pd_date_range_M t p = Inr dates"
proof -
  have m: "1 \<le> month t" "month t \<le> 12" using assms(1) by (simp_all add: valid_date_def)
  define n where "n = month_ordinal (rollback t)"
  have n: "n = month_ordinal t \<or> n = month_ordinal t - 1"
    unfolding n_def using month_ordinal_rollback [OF m] by (simp split: if_splits)
  have lo: "1679 * 12 \<le> month_ordinal t" and hi: "month_ordinal t < 2262 * 12"
    using assms(2,3) m by (simp_all add: month_ordinal_def)
  have t: "in_ns_bounds t" using assms(2,3) by (intro in_ns_bounds_year) simp_all
  have yr: "year (rollback t) = (if is_month_end t then year t else (month_ordinal t - 1) div 12)"
    by (simp add: rollback_def year_month_end)
  have "1678 \<le> (month_ordinal t - 1) div 12" using lo by linarith
  moreover have "(month_ordinal t - 1) div 12 \<le> 2261" using hi by linarith
  ultimately have e: "in_ns_bounds (rollback t)"
    using assms(2,3) yr by (intro in_ns_bounds_year) (simp_all split: if_splits)
  have "1678 \<le> (n - (p - 1)) div 12" using n lo assms(4,5) by linarith
  moreover have "(n - (p - 1)) div 12 \<le> 2261" using n hi assms(4,5) by linarith
  ultimately have s: "in_ns_bounds (month_end (n - (p - 1)))"
    by (intro in_ns_bounds_year) (simp_all add: year_month_end)
  show ?thesis
    using assms(4) t e s by (simp add: pd_date_range_M_def Let_def n_def)
qed

subsection \<open>Shapes\<close>

lemma np_linspace_Inr:
  assumes "np_linspace a b p = Inr ys"
  shows "0 \<le> p" "length ys = nat p"
  using assms by (auto simp: np_linspace_def Let_def split: if_splits)

lemma np_linspace_total: "0 \<le> p \<Longrightarrow> \<exists>ys. np_linspace a b p = Inr ys"
  by (simp add: np_linspace_def Let_def)

lemma normal_row_length: "length (fst (normal_row lib loc scale n g)) = n"
  by (induction n arbitrary: g) (simp_all add: split_beta Let_def)

lemma np_random_normal_shape:
  "length (fst (np_random_normal lib loc scale rows cols g)) = rows"
  "\<forall>r \<in> set (fst (np_random_normal lib loc scale rows cols g)). length r = cols"
  by (induction rows arbitrary: g) (simp_all add: split_beta Let_def normal_row_length)

lemma broadcast_add_length:
  "length base = length noise \<Longrightarrow> length (broadcast_add base noise) = length noise"
  by (simp add: broadcast_add_def)

lemma broadcast_add_rows:
  assumes "\<forall>r \<in> set noise. length r = c"
  shows "\<forall>r \<in> set (broadcast_add base noise). length r = c"
  using assms by (auto simp: broadcast_add_def dest: set_zip_rightD)

text \<open>
  The numeric content of the generated frame and the state the generator is left in, as
  functions of the seed and the period count alone.
\<close>

definition series_values :: "'g np_random \<Rightarrow> int \<Rightarrow> int \<Rightarrow> f64 list list" where
  "series_values lib seed periods =
     (case np_linspace (f64_of_int 60) (f64_of_int 85) periods of
        Inl e \<Rightarrow> []
      | Inr base \<Rightarrow>
          map (map (\<lambda>x. np_round (f64_clip (f64_of_int 0) (f64_of_int 100) x) 1))
            (broadcast_add base
               (fst (np_random_normal lib (f64_of_int 0) (f64_of_int 4) (nat periods) 3
                       (mt_seed lib (nat seed))))))"

definition series_state :: "'g np_random \<Rightarrow> int \<Rightarrow> int \<Rightarrow> 'g" where
  "series_state lib seed periods =
     snd (np_random_normal lib (f64_of_int 0) (f64_of_int 4) (nat periods) 3 (mt_seed lib (nat seed)))"

definition series_columns :: "string list" where
  "series_columns = [''Governance'', ''ESG'', ''Finance'']"

lemma generate_time_series_eq:
  assumes "0 \<le> seed" "seed < 2 ^ 32" "0 \<le> periods"
  shows "generate_time_series lib seed periods g utcnow =
     (case pd_date_range_M (date.truncate utcnow) periods of
        Inl e \<Rightarrow> Inl e
      | Inr dates \<Rightarrow> Inr \<lparr>df_columns = series_columns, df_index = dates,
                           df_values = series_values lib seed periods\<rparr>,
      series_state lib seed periods)"
proof -
  obtain base where base: "np_linspace (f64_of_int 60) (f64_of_int 85) periods = Inr base"
    using np_linspace_total [OF assms(3)] by blast
  have lb: "length base = nat periods" using base by (rule np_linspace_Inr)
  define nz where "nz = np_random_normal lib (f64_of_int 0) (f64_of_int 4) (nat periods) 3 (mt_seed lib (nat seed))"
  have ln: "length (fst nz) = nat periods" and rows: "\<forall>r \<in> set (fst nz). length r = 3"
    unfolding nz_def by (rule np_random_normal_shape)+
  define vals where "vals = broadcast_add base (fst nz)"
  have lv: "length vals = nat periods" unfolding vals_def using lb ln by (simp add: broadcast_add_length)
  have rv: "\<forall>r \<in> set vals. length r = 3" unfolding vals_def using rows by (rule broadcast_add_rows)
  have df: "pd_DataFrame vals [''Governance'', ''ESG'', ''Finance'']
      = Inr \<lparr>df_columns = [''Governance'', ''ESG'', ''Finance''],
             df_index = [0..int (length vals) - 1], df_values = vals\<rparr>"
    using rv by (simp add: pd_DataFrame_def)
  show ?thesis
  proof (cases "pd_date_range_M (date.truncate utcnow) periods")
    case (Inl e)
    then show ?thesis
      using assms base df
      by (simp add: generate_time_series_def np_random_seed_def split_beta Let_def
          nz_def [symmetric] vals_def [symmetric] series_state_def)
  next
    case (Inr dates)
    then have "length dates = nat periods" by (rule date_range_length)
    then show ?thesis
      using assms base df Inr lv
      by (simp add: generate_time_series_def np_random_seed_def split_beta Let_def
          nz_def [symmetric] vals_def [symmetric] series_state_def set_index_def
          df_round_def df_clip_def series_values_def series_columns_def)
  qed
qed

lemma generate_time_series_Inr:
  assumes "generate_time_series lib seed periods g utcnow = (Inr df, g')"
  shows "0 \<le> seed" "seed < 2 ^ 32" "0 \<le> periods"
    "pd_date_range_M (date.truncate utcnow) periods = Inr (df_index df)"
    "df_columns df = series_columns"
    "df_values df = series_values lib seed periods"
    "g' = series_state lib seed periods"
proof -
  show s: "0 \<le> seed" "seed < 2 ^ 32"
    using assms by (auto simp: generate_time_series_def np_random_seed_def split: if_splits)
  show p: "0 \<le> periods"
    using assms s
    by (auto simp: generate_time_series_def np_random_seed_def np_linspace_def split: if_splits)
  from assms generate_time_series_eq [OF s p, of lib g utcnow]
  show "pd_date_range_M (date.truncate utcnow) periods = Inr (df_index df)"
    "df_columns df = series_columns"
    "df_values df = series_values lib seed periods"
    "g' = series_state lib seed periods"
    by (auto split: sum.splits)
qed

section \<open>The memoising decorator\<close>

text \<open>
  \<^verbatim>\<open>@st.cache_data(ttl=60*10)\<close> keeps the frame returned for a pair of arguments for 600
  seconds of the cache's timer and returns the stored frame while the entry is fresh; an
  exception is not stored. The cache and the random generator are the state of the process.
\<close>

record clock =
  utc :: datetime
  timer :: rat

record 'g app_state =
  np_state :: 'g
  series_cache :: "int \<times> int \<Rightarrow> (date dataframe \<times> rat) option"

definition cache_miss ::
  "'g np_random \<Rightarrow> int \<Rightarrow> int \<Rightarrow> 'g app_state \<Rightarrow> clock \<Rightarrow> (py_error + date dataframe) \<times> 'g app_state" where
  "cache_miss lib seed periods st clk =
     (let (res, g') = generate_time_series lib seed periods (np_state st) (utc clk)
      in (res, st\<lparr>np_state := g',
                   series_cache :=
                     (case res of
                        Inl e \<Rightarrow> series_cache st
                      | Inr df \<Rightarrow> (series_cache st)((seed, periods) \<mapsto> (df, timer clk)))\<rparr>))"

definition generate_time_series_cached ::
  "'g np_random \<Rightarrow> int \<Rightarrow> int \<Rightarrow> 'g app_state \<Rightarrow> clock \<Rightarrow> (py_error + date dataframe) \<times> 'g app_state" where
  "generate_time_series_cached lib seed periods st clk =
     (case series_cache st (seed, periods) of
        None \<Rightarrow> cache_miss lib seed periods st clk
      | Some (df, stored) \<Rightarrow>
          if timer clk < stored + 60 * 10 then (Inr df, st)
          else cache_miss lib seed periods st clk)"

text \<open>
  The decorator runs the body when it holds no entry for the arguments, or an entry that
  is 600 seconds old; otherwise it answers from the cache.
\<close>

definition body_runs :: "'g app_state \<Rightarrow> int \<Rightarrow> int \<Rightarrow> clock \<Rightarrow> bool" where
  "body_runs st seed periods clk =
     (case series_cache st (seed, periods) of
        None \<Rightarrow> True
      | Some (df, stored) \<Rightarrow> \<not> timer clk < stored + 60 * 10)"

text \<open>Every stored frame was returned by the generator for the arguments it is stored under.\<close>

definition cache_ok :: "'g np_random \<Rightarrow> 'g app_state \<Rightarrow> bool" where
  "cache_ok lib st =
     (\<forall>seed periods df stored. series_cache st (seed, periods) = Some (df, stored) \<longrightarrow>
        (\<exists>g now. fst (generate_time_series lib seed periods g now) = Inr df))"

lemma cache_ok_empty: "cache_ok lib \<lparr>np_state = g, series_cache = (\<lambda>k. None)\<rparr>"
  by (simp add: cache_ok_def)

lemma cache_miss_ok:
  assumes "cache_ok lib st" "cache_miss lib seed periods st clk = (res, st')"
  shows "cache_ok lib st'"
proof (cases "fst (generate_time_series lib seed periods (np_state st) (utc clk))")
  case (Inl e)
  then show ?thesis
    using assms by (auto simp: cache_miss_def cache_ok_def split_beta Let_def)
next
  case (Inr df)
  have "series_cache st' = (series_cache st)((seed, periods) \<mapsto> (df, timer clk))"
    using assms(2) Inr by (auto simp: cache_miss_def split_beta Let_def)
  then show ?thesis
    using assms(1) Inr unfolding cache_ok_def
    by (auto split: if_splits)
qed

lemma cached_ok:
  assumes "cache_ok lib st" "generate_time_series_cached lib seed periods st clk = (res, st')"
  shows "cache_ok lib st'"
  using assms
  by (auto simp: generate_time_series_cached_def split: option.splits if_splits
      dest: cache_miss_ok)

lemma cached_Inr:
  assumes "cache_ok lib st" "generate_time_series_cached lib seed periods st clk = (Inr df, st')"
  shows "\<exists>g now. fst (generate_time_series lib seed periods g now) = Inr df"
proof (cases "series_cache st (seed, periods)")
  case None
  then have "cache_miss lib seed periods st clk = (Inr df, st')"
    using assms(2) by (simp add: generate_time_series_cached_def)
  then have "fst (generate_time_series lib seed periods (np_state st) (utc clk)) = Inr df"
    by (auto simp: cache_miss_def split_beta Let_def)
  then show ?thesis by blast
next
  case (Some a)
  obtain df0 stored where a: "a = (df0, stored)" by (cases a)
  show ?thesis
  proof (cases "timer clk < stored + 60 * 10")
    case True
    then have "df = df0" using assms(2) Some a by (simp add: generate_time_series_cached_def)
    then show ?thesis using assms(1) Some a by (auto simp: cache_ok_def)
  next
    case False
    then have "cache_miss lib seed periods st clk = (Inr df, st')"
      using assms(2) Some a by (simp add: generate_time_series_cached_def)
    then have "fst (generate_time_series lib seed periods (np_state st) (utc clk)) = Inr df"
      by (auto simp: cache_miss_def split_beta Let_def)
    then show ?thesis by blast
  qed
qed

lemma cached_values:
  assumes "cache_ok lib st" "generate_time_series_cached lib seed periods st clk = (Inr df, st')"
  shows "df_values df = series_values lib seed periods" "df_columns df = series_columns"
proof -
  from cached_Inr [OF assms] obtain g now
    where "fst (generate_time_series lib seed periods g now) = Inr df" by blast
  then have "generate_time_series lib seed periods g now
      = (Inr df, snd (generate_time_series lib seed periods g now))"
    by (metis prod.collapse)
  from generate_time_series_Inr(5,6) [OF this]
  show "df_values df = series_values lib seed periods" "df_columns df = series_columns"
    by simp_all
qed

lemma generate_time_series_same_date:
  assumes "date.truncate now1 = date.truncate now2"
  shows "fst (generate_time_series lib seed periods g1 now1)
       = fst (generate_time_series lib seed periods g2 now2)"
proof (cases "0 \<le> seed \<and> seed < 2 ^ 32")
  case True
  show ?thesis
  proof (cases "0 \<le> periods")
    case p: True
    show ?thesis using True p assms by (simp add: generate_time_series_eq)
  next
    case False
    then show ?thesis
      using True by (simp add: generate_time_series_def np_random_seed_def np_linspace_def)
  qed
next
  case False
  then show ?thesis
    by (auto simp: generate_time_series_def np_random_seed_def)
qed

lemma body_runs_miss:
  assumes "body_runs st seed periods clk"
  shows "generate_time_series_cached lib seed periods st clk = cache_miss lib seed periods st clk"
  using assms
  by (auto simp: body_runs_def generate_time_series_cached_def split: option.splits)

lemma body_runs_index:
  assumes "body_runs st seed periods clk"
    and "generate_time_series_cached lib seed periods st clk = (Inr df, st')"
  shows "pd_date_range_M (date.truncate (utc clk)) periods = Inr (df_index df)"
proof -
  have "cache_miss lib seed periods st clk = (Inr df, st')"
    using assms by (simp add: body_runs_miss)
  then have "fst (generate_time_series lib seed periods (np_state st) (utc clk)) = Inr df"
    by (auto simp: cache_miss_def split_beta Let_def)
  then have "generate_time_series lib seed periods (np_state st) (utc clk)
      = (Inr df, snd (generate_time_series lib seed periods (np_state st) (utc clk)))"
    by (metis prod.collapse)
  then show ?thesis by (rule generate_time_series_Inr(4))
qed

lemma date_range_same_rollback:
  assumes "pd_date_range_M t1 p = Inr ds1" "pd_date_range_M t2 p = Inr ds2"
    and "rollback t1 = rollback t2"
  shows "ds1 = ds2"
  using date_range_Inr(5) [OF assms(1)] date_range_Inr(5) [OF assms(2)] assms(3) by simp

lemma date_range_same_dates:
  assumes "pd_date_range_M t1 p = Inr ds" "pd_date_range_M t2 p = Inr ds"
    and "1 \<le> p" "valid_date t1" "valid_date t2"
  shows "rollback t1 = rollback t2"
  using date_range_last [OF assms(1,3,4)] date_range_last [OF assms(2,3,5)] by simp

lemma dataframe_eq_iff:
  fixes df1 df2 :: "'i dataframe"
  assumes "df_values df1 = df_values df2" "df_columns df1 = df_columns df2"
  shows "df1 = df2 \<longleftrightarrow> df_index df1 = df_index df2"
  using assms by (auto intro: dataframe.equality)

lemma series_values_length:
  "0 \<le> periods \<Longrightarrow> length (series_values lib seed periods) = nat periods"
proof -
  assume p: "0 \<le> periods"
  obtain base where base: "np_linspace (f64_of_int 60) (f64_of_int 85) periods = Inr base"
    using np_linspace_total [OF p] by blast
  have "length base = nat periods" using base by (rule np_linspace_Inr)
  then show ?thesis
    by (simp add: series_values_def base broadcast_add_length np_random_normal_shape)
qed

lemmas calendar_defs =
  pd_date_range_M_def in_ns_bounds_def date_less_def rollback_def is_month_end_def
  days_in_month_def is_leap_def month_end_def month_ordinal_def valid_date_def
  date.truncate_def

definition demo_now :: datetime where
  "demo_now = \<lparr>year = 2026, month = 11, day = 4, hour = 10, minute = 30, second = 0\<rparr>"

lemma demo_range:
  "pd_date_range_M (date.truncate demo_now) 12 =
     Inr [\<lparr>year = 2025, month = 11, day = 30\<rparr>, \<lparr>year = 2025, month = 12, day = 31\<rparr>,
          \<lparr>year = 2026, month = 1, day = 31\<rparr>, \<lparr>year = 2026, month = 2, day = 28\<rparr>,
          \<lparr>year = 2026, month = 3, day = 31\<rparr>, \<lparr>year = 2026, month = 4, day = 30\<rparr>,
          \<lparr>year = 2026, month = 5, day = 31\<rparr>, \<lparr>year = 2026, month = 6, day = 30\<rparr>,
          \<lparr>year = 2026, month = 7, day = 31\<rparr>, \<lparr>year = 2026, month = 8, day = 31\<rparr>,
          \<lparr>year = 2026, month = 9, day = 30\<rparr>, \<lparr>year = 2026, month = 10, day = 31\<rparr>]"
  by (simp add: calendar_defs demo_now_def upto.simps)

text \<open>
  Claim C3, amended. For every valid seed and every period count \<open>p \<ge> 1\<close> for which the
  month ends stay inside the range of pandas timestamps, the generator returns a frame with
  exactly \<open>p\<close> rows whose dates are in strictly ascending order, each the last day of a
  calendar month. The series ends at the latest month end on or before today (UTC): at
  today when today is the last day of its month, otherwise at the last day of the previous
  month. So it ends in the current month exactly when today is a month end.
\<close>

theorem C3_rows_and_dates:
  assumes "0 \<le> seed" "seed < 2 ^ 32" "1 \<le> periods"
    and "valid_date (date.truncate utcnow)"
    and "pd_date_range_M (date.truncate utcnow) periods = Inr dates"
  shows "\<exists>df. generate_time_series lib seed periods g utcnow = (Inr df, series_state lib seed periods)
      \<and> df_index df = dates
      \<and> length (df_values df) = nat periods \<and> length dates = nat periods
      \<and> (\<forall>i j. i < j \<and> j < length dates \<longrightarrow> date_less (dates ! i) (dates ! j))
      \<and> (\<forall>d \<in> set dates. is_month_end d)
      \<and> last dates = (if is_month_end (date.truncate utcnow) then date.truncate utcnow
                       else month_end (month_ordinal (date.truncate utcnow) - 1))
      \<and> \<not> date_less (date.truncate utcnow) (last dates)
      \<and> (month_ordinal (last dates) = month_ordinal (date.truncate utcnow)
           \<longleftrightarrow> is_month_end (date.truncate utcnow))"
proof -
  define today where "today = date.truncate utcnow"
  have p0: "0 \<le> periods" using assms(3) by simp
  have m: "1 \<le> month today" "month today \<le> 12"
    using assms(4) by (simp_all add: valid_date_def today_def)
  have range: "pd_date_range_M today periods = Inr dates" using assms(5) by (simp add: today_def)
  have gen: "generate_time_series lib seed periods g utcnow =
      (Inr \<lparr>df_columns = series_columns, df_index = dates,
             df_values = series_values lib seed periods\<rparr>, series_state lib seed periods)"
    using assms(5) by (simp add: generate_time_series_eq [OF assms(1,2) p0])
  have len: "length dates = nat periods" using range by (rule date_range_length)
  have asc: "\<forall>i j. i < j \<and> j < length dates \<longrightarrow> date_less (dates ! i) (dates ! j)"
    using date_range_ascending [OF range] by blast
  have ends: "\<forall>d \<in> set dates. is_month_end d"
    using date_range_month_ends [OF range] by blast
  have last: "last dates = rollback today"
    using range assms(3) assms(4) [folded today_def] by (rule date_range_last)
  have l1: "last dates = (if is_month_end today then today else month_end (month_ordinal today - 1))"
    using last by (simp add: rollback_def)
  have l2: "\<not> date_less today (last dates)"
    unfolding last using assms(4) [folded today_def] by (rule rollback_not_after)
  have l3: "month_ordinal (last dates) = month_ordinal today \<longleftrightarrow> is_month_end today"
    unfolding last using month_ordinal_rollback [OF m] by simp
  show ?thesis
    unfolding today_def [symmetric] using gen len asc ends l1 l2 l3
    by (simp add: series_values_length [OF p0])
qed

text \<open>The theorem at seed 42, 12 periods, on 4 November 2026.\<close>

theorem C3_rows_and_dates_witness:
  "(0::int) \<le> 42 \<and> (42::int) < 2 ^ 32 \<and> (1::int) \<le> 12 \<and> valid_date (date.truncate demo_now)
   \<and> (\<exists>dates. pd_date_range_M (date.truncate demo_now) 12 = Inr dates
      \<and> (\<exists>df. generate_time_series demo_random 42 12 0 demo_now
                  = (Inr df, series_state demo_random 42 12)
            \<and> df_index df = dates \<and> length (df_values df) = 12 \<and> length dates = 12
            \<and> last dates = \<lparr>year = 2026, month = 10, day = 31\<rparr>))"
proof -
  have a: "(0::int) \<le> 42" and b: "(42::int) < 2 ^ 32" and c: "(1::int) \<le> 12" by simp_all
  have v: "valid_date (date.truncate demo_now)" by (simp add: calendar_defs demo_now_def)
  note r = demo_range
  from C3_rows_and_dates [OF a b c v r, of demo_random 0]
  obtain df where "generate_time_series demo_random 42 12 0 demo_now
                  = (Inr df, series_state demo_random 42 12)"
     "df_index df = [\<lparr>year = 2025, month = 11, day = 30\<rparr>, \<lparr>year = 2025, month = 12, day = 31\<rparr>,
          \<lparr>year = 2026, month = 1, day = 31\<rparr>, \<lparr>year = 2026, month = 2, day = 28\<rparr>,
          \<lparr>year = 2026, month = 3, day = 31\<rparr>, \<lparr>year = 2026, month = 4, day = 30\<rparr>,
          \<lparr>year = 2026, month = 5, day = 31\<rparr>, \<lparr>year = 2026, month = 6, day = 30\<rparr>,
          \<lparr>year = 2026, month = 7, day = 31\<rparr>, \<lparr>year = 2026, month = 8, day = 31\<rparr>,
          \<lparr>year = 2026, month = 9, day = 30\<rparr>, \<lparr>year = 2026, month = 10, day = 31\<rparr>]"
     "length (df_values df) = 12"
    by auto
  then show ?thesis using a b c v r by simp
qed

text \<open>
  Claim C3 says that the series has \<open>p\<close> rows in ascending order, each dated at the last day
  of a month, and that it ends at the current month. On 4 November 2026 the twelve rows
  end at 31 October 2026: \<^verbatim>\<open>date_range(end=today, freq='M')\<close> rolls a day that is not a month
  end back to the previous month end.
\<close>

theorem C3_ends_before_current_month_counterexample:
  "fst (generate_time_series demo_random 42 12 0 demo_now) =
     Inr \<lparr>df_columns = series_columns,
          df_index =
            [\<lparr>year = 2025, month = 11, day = 30\<rparr>, \<lparr>year = 2025, month = 12, day = 31\<rparr>,
             \<lparr>year = 2026, month = 1, day = 31\<rparr>, \<lparr>year = 2026, month = 2, day = 28\<rparr>,
             \<lparr>year = 2026, month = 3, day = 31\<rparr>, \<lparr>year = 2026, month = 4, day = 30\<rparr>,
             \<lparr>year = 2026, month = 5, day = 31\<rparr>, \<lparr>year = 2026, month = 6, day = 30\<rparr>,
             \<lparr>year = 2026, month = 7, day = 31\<rparr>, \<lparr>year = 2026, month = 8, day = 31\<rparr>,
             \<lparr>year = 2026, month = 9, day = 30\<rparr>, \<lparr>year = 2026, month = 10, day = 31\<rparr>],
          df_values = series_values demo_random 42 12\<rparr>
   \<and> date.truncate demo_now = \<lparr>year = 2026, month = 11, day = 4\<rparr>
   \<and> month \<lparr>year = 2026, month = 10, day = 31\<rparr> \<noteq> month (date.truncate demo_now)"
  by (simp add: generate_time_series_eq demo_range) (simp add: demo_now_def date.truncate_def)

definition clock_at :: "int \<Rightarrow> int \<Rightarrow> int \<Rightarrow> rat \<Rightarrow> clock" where
  "clock_at y m d t =
     \<lparr>utc = \<lparr>year = y, month = m, day = d, hour = 9, minute = 0, second = 0\<rparr>, timer = t\<rparr>"

definition empty_state :: "nat app_state" where
  "empty_state = \<lparr>np_state = 0, series_cache = (\<lambda>k. None)\<rparr>"

lemma range_oct: "pd_date_range_M \<lparr>year = 2026, month = 10, day = 31\<rparr> 1
    = Inr [\<lparr>year = 2026, month = 10, day = 31\<rparr>]"
  by (simp add: calendar_defs upto.simps)

lemma range_nov: "pd_date_range_M \<lparr>year = 2026, month = 11, day = 30\<rparr> 1
    = Inr [\<lparr>year = 2026, month = 11, day = 30\<rparr>]"
  by (simp add: calendar_defs upto.simps)

lemma first_call:
  "generate_time_series_cached demo_random 0 1 empty_state (clock_at 2026 10 31 0) =
     (Inr \<lparr>df_columns = series_columns, df_index = [\<lparr>year = 2026, month = 10, day = 31\<rparr>],
           df_values = series_values demo_random 0 1\<rparr>,
      \<lparr>np_state = series_state demo_random 0 1,
       series_cache = (\<lambda>k. None)((0, 1) \<mapsto>
         (\<lparr>df_columns = series_columns, df_index = [\<lparr>year = 2026, month = 10, day = 31\<rparr>],
           df_values = series_values demo_random 0 1\<rparr>, 0))\<rparr>)"
  by (simp add: generate_time_series_cached_def cache_miss_def empty_state_def clock_at_def
      generate_time_series_eq date.truncate_def range_oct)

lemma second_call:
  "generate_time_series_cached demo_random 0 1
     (snd (generate_time_series_cached demo_random 0 1 empty_state (clock_at 2026 10 31 0)))
     (clock_at 2026 11 30 2592000) =
     (Inr \<lparr>df_columns = series_columns, df_index = [\<lparr>year = 2026, month = 11, day = 30\<rparr>],
           df_values = series_values demo_random 0 1\<rparr>,
      \<lparr>np_state = series_state demo_random 0 1,
       series_cache = (\<lambda>k. None)((0, 1) \<mapsto>
         (\<lparr>df_columns = series_columns, df_index = [\<lparr>year = 2026, month = 11, day = 30\<rparr>],
           df_values = series_values demo_random 0 1\<rparr>, 2592000))\<rparr>)"
  unfolding first_call
  by (simp add: generate_time_series_cached_def cache_miss_def clock_at_def
      generate_time_series_eq date.truncate_def range_nov)

lemma range_nov_4: "pd_date_range_M \<lparr>year = 2026, month = 11, day = 4\<rparr> 1
    = Inr [\<lparr>year = 2026, month = 10, day = 31\<rparr>]"
  by (simp add: calendar_defs upto.simps)

lemma range_nov_20: "pd_date_range_M \<lparr>year = 2026, month = 11, day = 20\<rparr> 1
    = Inr [\<lparr>year = 2026, month = 10, day = 31\<rparr>]"
  by (simp add: calendar_defs upto.simps)

lemma early_call:
  "generate_time_series_cached demo_random 0 1 empty_state (clock_at 2026 11 4 0) =
     (Inr \<lparr>df_columns = series_columns, df_index = [\<lparr>year = 2026, month = 10, day = 31\<rparr>],
           df_values = series_values demo_random 0 1\<rparr>,
      \<lparr>np_state = series_state demo_random 0 1,
       series_cache = (\<lambda>k. None)((0, 1) \<mapsto>
         (\<lparr>df_columns = series_columns, df_index = [\<lparr>year = 2026, month = 10, day = 31\<rparr>],
           df_values = series_values demo_random 0 1\<rparr>, 0))\<rparr>)"
  by (simp add: generate_time_series_cached_def cache_miss_def empty_state_def clock_at_def
      generate_time_series_eq date.truncate_def range_nov_4)

lemma later_call:
  "generate_time_series_cached demo_random 0 1
     (snd (generate_time_series_cached demo_random 0 1 empty_state (clock_at 2026 11 4 0)))
     (clock_at 2026 11 20 1382400) =
     (Inr \<lparr>df_columns = series_columns, df_index = [\<lparr>year = 2026, month = 10, day = 31\<rparr>],
           df_values = series_values demo_random 0 1\<rparr>,
      \<lparr>np_state = series_state demo_random 0 1,
       series_cache = (\<lambda>k. None)((0, 1) \<mapsto>
         (\<lparr>df_columns = series_columns, df_index = [\<lparr>year = 2026, month = 10, day = 31\<rparr>],
           df_values = series_values demo_random 0 1\<rparr>, 1382400))\<rparr>)"
  unfolding early_call
  by (simp add: generate_time_series_cached_def cache_miss_def clock_at_def
      generate_time_series_eq date.truncate_def range_nov_20)

definition night_clock :: "int \<Rightarrow> int \<Rightarrow> int \<Rightarrow> rat \<Rightarrow> clock" where
  "night_clock d h m t =
     \<lparr>utc = \<lparr>year = 2026, month = 11, day = d, hour = h, minute = m, second = 0\<rparr>, timer = t\<rparr>"

lemma range_nov_29: "pd_date_range_M \<lparr>year = 2026, month = 11, day = 29\<rparr> 1
    = Inr [\<lparr>year = 2026, month = 10, day = 31\<rparr>]"
  by (simp add: calendar_defs upto.simps)

lemma evening_call:
  "generate_time_series_cached demo_random 0 1 empty_state (night_clock 29 23 58 0) =
     (Inr \<lparr>df_columns = series_columns, df_index = [\<lparr>year = 2026, month = 10, day = 31\<rparr>],
           df_values = series_values demo_random 0 1\<rparr>,
      \<lparr>np_state = series_state demo_random 0 1,
       series_cache = (\<lambda>k. None)((0, 1) \<mapsto>
         (\<lparr>df_columns = series_columns, df_index = [\<lparr>year = 2026, month = 10, day = 31\<rparr>],
           df_values = series_values demo_random 0 1\<rparr>, 0))\<rparr>)"
  by (simp add: generate_time_series_cached_def cache_miss_def empty_state_def night_clock_def
      generate_time_series_eq date.truncate_def range_nov_29)

lemma cached_call:
  "generate_time_series_cached demo_random 0 1
     (snd (generate_time_series_cached demo_random 0 1 empty_state (night_clock 29 23 58 0)))
     (night_clock 30 0 2 240) =
     (Inr \<lparr>df_columns = series_columns, df_index = [\<lparr>year = 2026, month = 10, day = 31\<rparr>],
           df_values = series_values demo_random 0 1\<rparr>,
      snd (generate_time_series_cached demo_random 0 1 empty_state (night_clock 29 23 58 0)))"
  unfolding evening_call
  by (simp add: generate_time_series_cached_def night_clock_def)

lemma expired_call:
  "generate_time_series_cached demo_random 0 1
     (snd (generate_time_series_cached demo_random 0 1 empty_state (night_clock 29 23 58 0)))
     (night_clock 30 0 10 720) =
     (Inr \<lparr>df_columns = series_columns, df_index = [\<lparr>year = 2026, month = 11, day = 30\<rparr>],
           df_values = series_values demo_random 0 1\<rparr>,
      \<lparr>np_state = series_state demo_random 0 1,
       series_cache = (\<lambda>k. None)((0, 1) \<mapsto>
         (\<lparr>df_columns = series_columns, df_index = [\<lparr>year = 2026, month = 11, day = 30\<rparr>],
           df_values = series_values demo_random 0 1\<rparr>, 720))\<rparr>)"
  unfolding evening_call
  by (simp add: generate_time_series_cached_def cache_miss_def night_clock_def
      generate_time_series_eq date.truncate_def range_nov)

text \<open>
  Claim C1 says that two calls with the same seed and period count yield identical output.
  A call on 31 October 2026 and a second call thirty days later (the cache entry has
  expired) return frames with the same values and different row dates. Nor is one UTC
  date enough: after a call at 23:58 on 29 November, a call at 00:02 on 30 November is
  answered from the cache with the dates that end at 31 October, and a call at 00:10, when
  the entry has expired, runs the body and ends at 30 November.
\<close>

theorem C1_identical_output_counterexample:
  "fst (generate_time_series_cached demo_random 0 1 empty_state (clock_at 2026 10 31 0)) =
     Inr \<lparr>df_columns = series_columns, df_index = [\<lparr>year = 2026, month = 10, day = 31\<rparr>],
          df_values = series_values demo_random 0 1\<rparr>
   \<and> fst (generate_time_series_cached demo_random 0 1
         (snd (generate_time_series_cached demo_random 0 1 empty_state (clock_at 2026 10 31 0)))
         (clock_at 2026 11 30 2592000)) =
     Inr \<lparr>df_columns = series_columns, df_index = [\<lparr>year = 2026, month = 11, day = 30\<rparr>],
          df_values = series_values demo_random 0 1\<rparr>
   \<and> fst (generate_time_series_cached demo_random 0 1 empty_state (clock_at 2026 10 31 0))
     \<noteq> fst (generate_time_series_cached demo_random 0 1
         (snd (generate_time_series_cached demo_random 0 1 empty_state (clock_at 2026 10 31 0)))
         (clock_at 2026 11 30 2592000))
   \<and> fst (generate_time_series_cached demo_random 0 1
         (snd (generate_time_series_cached demo_random 0 1 empty_state (night_clock 29 23 58 0)))
         (night_clock 30 0 2 240)) =
     Inr \<lparr>df_columns = series_columns, df_index = [\<lparr>year = 2026, month = 10, day = 31\<rparr>],
          df_values = series_values demo_random 0 1\<rparr>
   \<and> fst (generate_time_series_cached demo_random 0 1
         (snd (generate_time_series_cached demo_random 0 1
            (snd (generate_time_series_cached demo_random 0 1 empty_state (night_clock 29 23 58 0)))
            (night_clock 30 0 2 240)))
         (night_clock 30 0 10 720)) =
     Inr \<lparr>df_columns = series_columns, df_index = [\<lparr>year = 2026, month = 11, day = 30\<rparr>],
          df_values = series_values demo_random 0 1\<rparr>
   \<and> date.truncate (utc (night_clock 30 0 2 240)) = date.truncate (utc (night_clock 30 0 10 720))"
proof -
  have a: "fst (generate_time_series_cached demo_random 0 1 empty_state (clock_at 2026 10 31 0)) =
     Inr \<lparr>df_columns = series_columns, df_index = [\<lparr>year = 2026, month = 10, day = 31\<rparr>],
          df_values = series_values demo_random 0 1\<rparr>
   \<and> fst (generate_time_series_cached demo_random 0 1
         (snd (generate_time_series_cached demo_random 0 1 empty_state (clock_at 2026 10 31 0)))
         (clock_at 2026 11 30 2592000)) =
     Inr \<lparr>df_columns = series_columns, df_index = [\<lparr>year = 2026, month = 11, day = 30\<rparr>],
          df_values = series_values demo_random 0 1\<rparr>
   \<and> fst (generate_time_series_cached demo_random 0 1 empty_state (clock_at 2026 10 31 0))
     \<noteq> fst (generate_time_series_cached demo_random 0 1
         (snd (generate_time_series_cached demo_random 0 1 empty_state (clock_at 2026 10 31 0)))
         (clock_at 2026 11 30 2592000))"
    unfolding second_call unfolding first_call by simp
  have b: "fst (generate_time_series_cached demo_random 0 1
         (snd (generate_time_series_cached demo_random 0 1 empty_state (night_clock 29 23 58 0)))
         (night_clock 30 0 2 240)) =
     Inr \<lparr>df_columns = series_columns, df_index = [\<lparr>year = 2026, month = 10, day = 31\<rparr>],
          df_values = series_values demo_random 0 1\<rparr>"
    by (simp only: cached_call fst_conv)
  have c: "fst (generate_time_series_cached demo_random 0 1
         (snd (generate_time_series_cached demo_random 0 1
            (snd (generate_time_series_cached demo_random 0 1 empty_state (night_clock 29 23 58 0)))
            (night_clock 30 0 2 240)))
         (night_clock 30 0 10 720)) =
     Inr \<lparr>df_columns = series_columns, df_index = [\<lparr>year = 2026, month = 11, day = 30\<rparr>],
          df_values = series_values demo_random 0 1\<rparr>"
    by (simp only: cached_call snd_conv expired_call fst_conv)
  have d: "date.truncate (utc (night_clock 30 0 2 240)) = date.truncate (utc (night_clock 30 0 10 720))"
    by (simp add: night_clock_def date.truncate_def)
  from a b c d show ?thesis by blast
qed

text \<open>
  Claim C1, amended. Two calls of the series generator with the same seed and period count
  that return a frame return the same numeric values in every row and the same column
  names, whatever the state of the random generator, the content of the cache and the
  clock at either call (the cache invariant holds initially and is kept by every call).
  So the two outputs are identical exactly when their row dates are. When neither call is
  answered from the cache, the outputs are identical if the latest month end on or before
  the UTC date is the same at both calls, as it is on one and the same date; and for
  calendar dates and at least one period, only then.
\<close>

theorem C1_same_seed_same_values:
  assumes "cache_ok lib st1" "cache_ok lib st2"
    and "generate_time_series_cached lib seed periods st1 clk1 = (Inr df1, st1')"
    and "generate_time_series_cached lib seed periods st2 clk2 = (Inr df2, st2')"
  shows "df_values df1 = df_values df2 \<and> df_columns df1 = df_columns df2
     \<and> cache_ok lib st1' \<and> cache_ok lib st2'
     \<and> (df1 = df2 \<longleftrightarrow> df_index df1 = df_index df2)
     \<and> (body_runs st1 seed periods clk1 \<and> body_runs st2 seed periods clk2 \<longrightarrow>
          (date.truncate (utc clk1) = date.truncate (utc clk2) \<longrightarrow> df1 = df2)
        \<and> (rollback (date.truncate (utc clk1)) = rollback (date.truncate (utc clk2))
             \<longrightarrow> df1 = df2)
        \<and> (1 \<le> periods \<and> valid_date (date.truncate (utc clk1))
             \<and> valid_date (date.truncate (utc clk2)) \<and> df1 = df2
             \<longrightarrow> rollback (date.truncate (utc clk1)) = rollback (date.truncate (utc clk2))))"
proof -
  note v1 = cached_values [OF assms(1,3)] and v2 = cached_values [OF assms(2,4)]
  have vals: "df_values df1 = df_values df2" using v1(1) v2(1) by simp
  have cols: "df_columns df1 = df_columns df2" using v1(2) v2(2) by simp
  have eq: "df1 = df2 \<longleftrightarrow> df_index df1 = df_index df2"
    using vals cols by (rule dataframe_eq_iff)
  have ok1: "cache_ok lib st1'" using assms(1,3) by (rule cached_ok)
  have ok2: "cache_ok lib st2'" using assms(2,4) by (rule cached_ok)
  have fresh: "(date.truncate (utc clk1) = date.truncate (utc clk2) \<longrightarrow> df1 = df2)
        \<and> (rollback (date.truncate (utc clk1)) = rollback (date.truncate (utc clk2))
             \<longrightarrow> df1 = df2)
        \<and> (1 \<le> periods \<and> valid_date (date.truncate (utc clk1))
             \<and> valid_date (date.truncate (utc clk2)) \<and> df1 = df2
             \<longrightarrow> rollback (date.truncate (utc clk1)) = rollback (date.truncate (utc clk2)))"
    if b: "body_runs st1 seed periods clk1" "body_runs st2 seed periods clk2"
  proof (intro conjI impI)
    note r1 = body_runs_index [OF b(1) assms(3)] and r2 = body_runs_index [OF b(2) assms(4)]
    show "df1 = df2"
      if "rollback (date.truncate (utc clk1)) = rollback (date.truncate (utc clk2))"
    proof -
      have "df_index df1 = df_index df2" using r1 r2 that by (rule date_range_same_rollback)
      then show ?thesis by (simp only: eq)
    qed
    then show "df1 = df2" if "date.truncate (utc clk1) = date.truncate (utc clk2)"
      using that by (simp only:)
    show "rollback (date.truncate (utc clk1)) = rollback (date.truncate (utc clk2))"
      if h: "1 \<le> periods \<and> valid_date (date.truncate (utc clk1))
             \<and> valid_date (date.truncate (utc clk2)) \<and> df1 = df2"
    proof -
      have r2': "pd_date_range_M (date.truncate (utc clk2)) periods = Inr (df_index df1)"
        using r2 h by (simp only:)
      from r1 r2' show ?thesis by (rule date_range_same_dates) (use h in blast)+
    qed
  qed
  from vals cols ok1 ok2 eq fresh show ?thesis by blast
qed

text \<open>
  The theorem at a call on 4 November 2026 and a second call sixteen days later, when the
  cache entry has expired: the latest month end is 31 October at both, and the outputs
  are identical.
\<close>

theorem C1_same_seed_same_values_witness:
  "cache_ok demo_random empty_state
   \<and> cache_ok demo_random
       (snd (generate_time_series_cached demo_random 0 1 empty_state (clock_at 2026 11 4 0)))
   \<and> body_runs empty_state 0 1 (clock_at 2026 11 4 0)
   \<and> body_runs (snd (generate_time_series_cached demo_random 0 1 empty_state (clock_at 2026 11 4 0)))
        0 1 (clock_at 2026 11 20 1382400)
   \<and> rollback (date.truncate (utc (clock_at 2026 11 4 0)))
     = rollback (date.truncate (utc (clock_at 2026 11 20 1382400)))
   \<and> date.truncate (utc (clock_at 2026 11 4 0)) \<noteq> date.truncate (utc (clock_at 2026 11 20 1382400))
   \<and> (\<exists>df1 st1 df2 st2.
        generate_time_series_cached demo_random 0 1 empty_state (clock_at 2026 11 4 0) = (Inr df1, st1)
      \<and> generate_time_series_cached demo_random 0 1
           (snd (generate_time_series_cached demo_random 0 1 empty_state (clock_at 2026 11 4 0)))
           (clock_at 2026 11 20 1382400) = (Inr df2, st2)
      \<and> df_values df1 = df_values df2 \<and> df_columns df1 = df_columns df2
      \<and> cache_ok demo_random st1 \<and> cache_ok demo_random st2
      \<and> df_index df1 = [\<lparr>year = 2026, month = 10, day = 31\<rparr>]
      \<and> df1 = df2)"
proof -
  define s1 where "s1 = snd (generate_time_series_cached demo_random 0 1 empty_state (clock_at 2026 11 4 0))"
  define d1 where "d1 = \<lparr>df_columns = series_columns, df_index = [\<lparr>year = 2026, month = 10, day = 31\<rparr>],
           df_values = series_values demo_random 0 1\<rparr>"
  have ok0: "cache_ok demo_random empty_state"
    unfolding empty_state_def by (rule cache_ok_empty)
  have c1: "generate_time_series_cached demo_random 0 1 empty_state (clock_at 2026 11 4 0) = (Inr d1, s1)"
    unfolding s1_def d1_def by (simp only: early_call snd_conv)
  have ok1: "cache_ok demo_random s1" using ok0 c1 by (rule cached_ok)
  obtain df2 st2 where c2:
    "generate_time_series_cached demo_random 0 1 s1 (clock_at 2026 11 20 1382400) = (Inr df2, st2)"
    unfolding s1_def using later_call by blast
  have b1: "body_runs empty_state 0 1 (clock_at 2026 11 4 0)"
    by (simp add: body_runs_def empty_state_def)
  have "series_cache s1 (0, 1) = Some (d1, 0)"
    unfolding s1_def d1_def by (simp add: early_call)
  then have b2: "body_runs s1 0 1 (clock_at 2026 11 20 1382400)"
    by (simp add: body_runs_def clock_at_def)
  have r: "rollback (date.truncate (utc (clock_at 2026 11 4 0)))
     = rollback (date.truncate (utc (clock_at 2026 11 20 1382400)))"
    by (simp add: clock_at_def calendar_defs)
  have d: "date.truncate (utc (clock_at 2026 11 4 0)) \<noteq> date.truncate (utc (clock_at 2026 11 20 1382400))"
    by (simp add: clock_at_def date.truncate_def)
  have i1: "df_index d1 = [\<lparr>year = 2026, month = 10, day = 31\<rparr>]" by (simp add: d1_def)
  from C1_same_seed_same_values [OF ok0 ok1 c1 c2] b1 b2 r
  have t: "df_values d1 = df_values df2 \<and> df_columns d1 = df_columns df2
      \<and> cache_ok demo_random s1 \<and> cache_ok demo_random st2 \<and> d1 = df2"
    by blast
  have ex: "\<exists>df1 st1 df2 st2.
        generate_time_series_cached demo_random 0 1 empty_state (clock_at 2026 11 4 0) = (Inr df1, st1)
      \<and> generate_time_series_cached demo_random 0 1 s1 (clock_at 2026 11 20 1382400) = (Inr df2, st2)
      \<and> df_values df1 = df_values df2 \<and> df_columns df1 = df_columns df2
      \<and> cache_ok demo_random st1 \<and> cache_ok demo_random st2
      \<and> df_index df1 = [\<lparr>year = 2026, month = 10, day = 31\<rparr>]
      \<and> df1 = df2"
    using c1 c2 t i1 by blast
  show ?thesis
    using ok0 ok1 b1 b2 r d ex unfolding s1_def by blast
qed

section \<open>The generator, cell by cell\<close>

text \<open>The state of the generator after \<open>k\<close> draws, and the \<open>k\<close>-th deviate drawn from a state.\<close>

fun gauss_state :: "'g np_random \<Rightarrow> 'g \<Rightarrow> nat \<Rightarrow> 'g" where
  "gauss_state lib g 0 = g"
| "gauss_state lib g (Suc k) = gauss_state lib (snd (gauss lib g)) k"

definition gauss_value :: "'g np_random \<Rightarrow> 'g \<Rightarrow> nat \<Rightarrow> rat" where
  "gauss_value lib g k = fst (gauss lib (gauss_state lib g k))"

text \<open>
  The steps of the generator in the words of its description: a linear baseline ramping
  from 60 to 85 across the periods (one value for a single period, else equal steps from
  60 at the first period to 85 at the last); noise with mean 0 and standard deviation 4,
  that is \<open>0 + 4 z\<close> for a standard normal deviate \<open>z\<close>, one draw per metric and period;
  clipping into \<open>[0,100]\<close>; rounding to one decimal place, that is to the tenth \<open>k/10\<close>
  whose numerator \<open>k\<close> is the integer nearest to ten times the value (a tie goes to the
  even integer), the product and the tenth each being the nearest float. None of the four
  is written with the library functions the generator calls (\<open>np_linspace\<close>, \<open>np_random_normal\<close>,
  \<open>f64_clip\<close>, \<open>np_round\<close> and its \<open>f64_rint\<close>); they share the arithmetic of floats only.
\<close>

definition spec_baseline :: "nat \<Rightarrow> nat \<Rightarrow> f64" where
  "spec_baseline periods i =
     (if periods \<le> 1 then Fin 60
      else if i = periods - 1 then Fin 85
      else f64_add (Fin 60)
             (f64_mul (f64_of_int (int i)) (f64_div (Fin 25) (f64_of_int (int periods - 1)))))"

definition spec_noise :: "'g np_random \<Rightarrow> int \<Rightarrow> nat \<Rightarrow> f64" where
  "spec_noise lib seed k =
     f64_add (Fin 0) (f64_mul (Fin 4) (round_f64 (gauss_value lib (mt_seed lib (nat seed)) k)))"

definition spec_clip :: "f64 \<Rightarrow> f64" where
  "spec_clip x = (if x = NaN then NaN else if f64_le x (Fin 0) then Fin 0
                  else if f64_le (Fin 100) x then Fin 100 else x)"

definition spec_round_1dp :: "f64 \<Rightarrow> f64" where
  "spec_round_1dp x =
     (case x of
        Fin q \<Rightarrow>
          (case round_f64 (10 * q) of
             Fin y \<Rightarrow> round_f64 (of_int (round_half_even y) / 10)
           | z \<Rightarrow> z)
      | z \<Rightarrow> z)"

definition spec_series :: "'g np_random \<Rightarrow> int \<Rightarrow> nat \<Rightarrow> f64 list list" where
  "spec_series lib seed periods =
     map (\<lambda>i. map (\<lambda>j. spec_round_1dp (spec_clip
                 (f64_add (spec_baseline periods i) (spec_noise lib seed (3 * i + j))))) [0..<3])
       [0..<periods]"

subsection \<open>Small exact values\<close>

lemma round_f64_neg_numeral:
  "(numeral n :: int) < 2 ^ 53 \<Longrightarrow> round_f64 (- numeral n) = Fin (- numeral n)"
  using is_f64_of_int [of "- numeral n"] by (simp add: is_f64_def)

lemma round_f64_of_nat:
  "n < 2 ^ 53 \<Longrightarrow> round_f64 (of_nat n) = Fin (of_nat n)"
  using is_f64_of_int [of "int n"] by (simp add: is_f64_def)

lemma round_f64_one [simp]: "round_f64 1 = Fin 1"
  using is_f64_of_int [of 1] by (simp add: is_f64_def)

lemma f64_of_int_numeral:
  "(numeral n :: int) < 2 ^ 53 \<Longrightarrow> f64_of_int (numeral n) = Fin (numeral n)"
  by (simp add: f64_of_int_def round_f64_numeral)

lemma f64_of_int_0 [simp]: "f64_of_int 0 = Fin 0"
  by (simp add: f64_of_int_def)

lemma round_f64_between:
  assumes "is_f64 lo" "is_f64 hi" "lo \<le> x" "x \<le> hi"
  shows "\<exists>y. round_f64 x = Fin y \<and> lo \<le> y \<and> y \<le> hi"
proof -
  have 1: "f64_le (Fin lo) (round_f64 x)"
    using round_f64_mono [OF assms(3)] assms(1) by (simp add: is_f64_def)
  have 2: "f64_le (round_f64 x) (Fin hi)"
    using round_f64_mono [OF assms(4)] assms(2) by (simp add: is_f64_def)
  show ?thesis using 1 2 by (cases "round_f64 x") simp_all
qed

lemma is_f64_numeral: "(numeral n :: int) < 2 ^ 53 \<Longrightarrow> is_f64 (numeral n)"
  using is_f64_of_int [of "numeral n"] by simp

lemma is_f64_0 [simp]: "is_f64 0"
  by (simp add: is_f64_def)

subsection \<open>Clipping and rounding one cell\<close>

lemma f64_clip_range:
  assumes "x \<noteq> NaN"
  shows "\<exists>c. f64_clip (Fin 0) (Fin 100) x = Fin c \<and> 0 \<le> c \<and> c \<le> 100"
  using assms by (cases x) (auto simp: f64_clip_def)

lemma f64_clip_spec: "f64_clip (Fin 0) (Fin 100) x = spec_clip x"
  by (cases x) (auto simp: f64_clip_def spec_clip_def)

lemma round_1dp_range:
  assumes "0 \<le> c" "c \<le> 100"
  shows "\<exists>q k. spec_round_1dp (Fin c) = Fin q \<and> np_round (Fin c) 1 = Fin q
            \<and> 0 \<le> q \<and> q \<le> 100 \<and> 0 \<le> k \<and> k \<le> 1000
            \<and> round_f64 (of_int k / 10) = Fin q
            \<and> \<bar>of_int k - 10 * c\<bar> \<le> 1 / 2 + 1 / 2 ^ 44"
proof -
  have "\<exists>y. round_f64 (10 * c) = Fin y \<and> 0 \<le> y \<and> y \<le> 1000"
    using assms by (intro round_f64_between) (simp_all add: is_f64_numeral)
  then obtain y where y: "round_f64 (10 * c) = Fin y" "0 \<le> y" "y \<le> 1000" by blast
  have ey: "\<bar>y - 10 * c\<bar> \<le> 1 / 2 ^ 44"
    using _ _ y(1) by (rule round_f64_abs_error) (use assms in simp_all)
  define k where "k = round_half_even y"
  have "round_half_even 0 \<le> k" unfolding k_def using y(2) by (rule round_half_even_mono)
  then have k0: "0 \<le> k" using round_half_even_of_int [of 0] by simp
  have "k \<le> round_half_even (of_int 1000)"
    unfolding k_def by (rule round_half_even_mono) (use y(3) in simp)
  then have k1: "k \<le> 1000" by (simp only: round_half_even_of_int)
  have ek: "\<bar>of_int k - y\<bar> \<le> 1 / 2"
    unfolding k_def using round_half_even_bounds [of y] by linarith
  have rk: "round_f64 (of_int k) = Fin (of_int k)"
    using is_f64_of_int [of k] k0 k1 by (simp add: is_f64_def)
  have "\<exists>q. round_f64 (of_int k / 10) = Fin q \<and> 0 \<le> q \<and> q \<le> 100"
    using k0 k1 by (intro round_f64_between) (simp_all add: is_f64_numeral)
  then obtain q where q: "round_f64 (of_int k / 10) = Fin q" "0 \<le> q" "q \<le> 100" by blast
  have s: "spec_round_1dp (Fin c) = Fin q"
    by (simp add: spec_round_1dp_def y(1) k_def [symmetric] q(1))
  have "f64_mul (Fin c) (Fin 10) = Fin y" using y(1) by (simp add: mult.commute)
  then have n: "np_round (Fin c) 1 = Fin q"
    by (simp add: np_round_def Let_def f64_of_int_numeral k_def [symmetric] rk q(1))
  have "\<bar>of_int k - 10 * c\<bar> \<le> 1 / 2 + 1 / 2 ^ 44" using ek ey by linarith
  then show ?thesis using s n q k0 k1 by blast
qed

lemma np_round_spec: "np_round (spec_clip x) (Suc 0) = spec_round_1dp (spec_clip x)"
proof (cases "x = NaN")
  case True
  then show ?thesis by (simp add: spec_clip_def np_round_def spec_round_1dp_def Let_def)
next
  case False
  from f64_clip_range [OF this] obtain c
    where c: "spec_clip x = Fin c" "0 \<le> c" "c \<le> 100" by (auto simp: f64_clip_spec)
  from round_1dp_range [OF c(2,3)] show ?thesis unfolding c(1) by auto
qed

lemma cell_nearest:
  assumes "x \<noteq> NaN"
  shows "\<exists>c q k. spec_clip x = Fin c \<and> 0 \<le> c \<and> c \<le> 100
            \<and> spec_round_1dp (spec_clip x) = Fin q \<and> 0 \<le> q \<and> q \<le> 100
            \<and> 0 \<le> k \<and> k \<le> 1000 \<and> round_f64 (of_int k / 10) = Fin q
            \<and> \<bar>of_int k - 10 * c\<bar> \<le> 1 / 2 + 1 / 2 ^ 44"
proof -
  from f64_clip_range [OF assms] obtain c
    where c: "spec_clip x = Fin c" "0 \<le> c" "c \<le> 100" by (auto simp: f64_clip_spec)
  from round_1dp_range [OF c(2,3)] show ?thesis unfolding c(1) using c(2,3) by blast
qed

lemma cell_range:
  assumes "x \<noteq> NaN"
  shows "\<exists>q k. spec_round_1dp (spec_clip x) = Fin q \<and> 0 \<le> q \<and> q \<le> 100
            \<and> 0 \<le> k \<and> k \<le> 1000 \<and> round_f64 (of_int k / 10) = Fin q"
  using cell_nearest [OF assms] by blast

subsection \<open>The baseline\<close>

lemma upto_as_upt: "[0..int n - 1] = map int [0..<n]"
proof (induction n)
  case 0
  then show ?case by simp
next
  case (Suc n)
  have "[0..int (Suc n) - 1] = [0..int n - 1] @ [int n]"
    using upto_rec2 [of 0 "int n"] by simp
  then show ?case using Suc by simp
qed

lemma f64_add_commute: "f64_add x y = f64_add y x"
  by (cases x; cases y) (simp_all add: add.commute)

lemma baseline_delta: "f64_sub (Fin 85) (Fin 60) = Fin 25"
  by (simp add: f64_sub_def round_f64_numeral)

lemma is_f64_512th: "is_f64 (1 / 512)"
proof -
  have "round_f64 (of_int 1 * 2 powi (- 9)) = Fin (of_int 1 * 2 powi (- 9))"
    by (rule round_f64_exact) (simp_all add: overflow_bound_def)
  then show ?thesis by (simp add: is_f64_def)
qed

lemma baseline_step:
  assumes "1 \<le> dv" "dv \<le> 7031"
  shows "\<exists>s. f64_div (Fin 25) (f64_of_int dv) = Fin s \<and> 1 / 512 \<le> s \<and> s \<le> 25"
proof -
  have conv: "f64_of_int dv = Fin (of_int dv)" using assms by (intro f64_of_int_small) simp
  have d1: "1 \<le> rat_of_int dv" and d2: "rat_of_int dv \<le> 7031" using assms by simp_all
  have lo: "1 / 512 \<le> 25 / rat_of_int dv" using d1 d2 by (simp add: field_simps)
  have hi: "25 / rat_of_int dv \<le> 25" using d1 by (simp add: field_simps)
  have "\<exists>s. round_f64 (25 / rat_of_int dv) = Fin s \<and> 1 / 512 \<le> s \<and> s \<le> 25"
    using is_f64_512th _ lo hi by (rule round_f64_between) (simp add: is_f64_numeral)
  then show ?thesis using d1 by (simp add: conv)
qed

lemma linspace_item_ramp:
  assumes "1 \<le> dv" "dv \<le> 7031"
  shows "linspace_item (Fin 60) (Fin 25) dv i =
     f64_add (Fin 60) (f64_mul (f64_of_int i) (f64_div (Fin 25) (f64_of_int dv)))"
proof -
  from baseline_step [OF assms] obtain s
    where s: "f64_div (Fin 25) (f64_of_int dv) = Fin s" "1 / 512 \<le> s" by blast
  then have "f64_div (Fin 25) (f64_of_int dv) \<noteq> Fin 0" by auto
  then show ?thesis
    using assms(1) by (simp add: linspace_item_def Let_def f64_add_commute)
qed

lemma linspace_item_single: "linspace_item (Fin 60) (Fin 25) 0 0 = Fin 60"
  by (simp add: linspace_item_def round_f64_numeral)

lemma np_linspace_spec:
  assumes "0 \<le> p" "p \<le> 7032"
  shows "np_linspace (Fin 60) (Fin 85) p = Inr (map (spec_baseline (nat p)) [0..<nat p])"
proof -
  define n where "n = nat p"
  have p: "p = int n" using assms(1) by (simp add: n_def)
  consider "n = 0" | "n = 1" | "2 \<le> n" by linarith
  then show ?thesis
  proof cases
    case 1
    then show ?thesis by (simp add: np_linspace_def p)
  next
    case 2
    then show ?thesis
      by (simp add: np_linspace_def p baseline_delta spec_baseline_def linspace_item_single)
  next
    case 3
    then obtain m where m: "n = Suc m" "1 \<le> m" by (cases n) auto
    have dv: "1 \<le> int n - 1" "int n - 1 \<le> 7031" using 3 assms(2) p by simp_all
    have items: "map (linspace_item (Fin 60) (Fin 25) (int n - 1)) [0..int n - 1]
        = map (\<lambda>i. f64_add (Fin 60) (f64_mul (f64_of_int (int i))
                     (f64_div (Fin 25) (f64_of_int (int n - 1))))) [0..<n]"
      by (simp add: upto_as_upt linspace_item_ramp [OF dv] comp_def)
    have "butlast (map (\<lambda>i. f64_add (Fin 60) (f64_mul (f64_of_int (int i))
                     (f64_div (Fin 25) (f64_of_int (int n - 1))))) [0..<n]) @ [Fin 85]
        = map (spec_baseline n) [0..<n]"
      using 3 unfolding m(1) by (simp add: spec_baseline_def butlast_snoc)
    then show ?thesis
      using 3 by (simp add: np_linspace_def p baseline_delta items del: upt_Suc)
  qed
qed

lemma spec_baseline_finite:
  assumes "p \<le> 7032" "i < p"
  shows "\<exists>b. spec_baseline p i = Fin b"
proof (cases "p \<le> 1 \<or> i = p - 1")
  case True
  then show ?thesis
    by (auto simp: spec_baseline_def intro: exI [of _ 60] exI [of _ 85])
next
  case False
  then have p2: "2 \<le> p" by simp
  note ip = assms(2)
  have dv: "1 \<le> int p - 1" "int p - 1 \<le> 7031" using p2 assms(1) by simp_all
  from baseline_step [OF dv] obtain s
    where s: "f64_div (Fin 25) (f64_of_int (int p - 1)) = Fin s" "1 / 512 \<le> s" "s \<le> 25" by blast
  have i: "f64_of_int (int i) = Fin (of_nat i)"
    using ip assms by (simp add: f64_of_int_def round_f64_of_nat)
  have i0: "0 \<le> rat_of_nat i" and i1: "rat_of_nat i \<le> 7032" using ip assms by simp_all
  have "rat_of_nat i * s \<le> 7032 * 25"
    using i0 i1 s(2,3) by (intro mult_mono) simp_all
  moreover have "0 \<le> rat_of_nat i * s" using i0 s(2) by simp
  ultimately have "\<exists>t. round_f64 (rat_of_nat i * s) = Fin t \<and> 0 \<le> t \<and> t \<le> 175800"
    by (intro round_f64_between) (simp_all add: is_f64_numeral)
  then obtain t where t: "round_f64 (rat_of_nat i * s) = Fin t" "0 \<le> t" "t \<le> 175800" by blast
  have "\<exists>b. round_f64 (60 + t) = Fin b \<and> 60 \<le> b \<and> b \<le> 175860"
    using t(2,3) by (intro round_f64_between) (simp_all add: is_f64_numeral)
  then show ?thesis
    using False by (auto simp: spec_baseline_def s(1) i t(1))
qed


subsection \<open>The noise\<close>

lemma gauss_state_Suc: "gauss_state lib g (Suc k) = snd (gauss lib (gauss_state lib g k))"
  by (induction k arbitrary: g) simp_all

lemma gauss_state_add: "gauss_state lib (gauss_state lib g m) k = gauss_state lib g (m + k)"
  by (induction m arbitrary: g) simp_all

lemma gauss_value_shift: "gauss_value lib (gauss_state lib g m) k = gauss_value lib g (m + k)"
  by (simp add: gauss_value_def gauss_state_add)

lemma normal_row_draws:
  "normal_row lib loc scale n g =
     (map (\<lambda>k. f64_add loc (f64_mul scale (round_f64 (gauss_value lib g k)))) [0..<n],
      gauss_state lib g n)"
proof (induction n arbitrary: g)
  case 0
  then show ?case by simp
next
  case (Suc n)
  have v: "\<And>k. gauss_value lib (snd (gauss lib g)) k = gauss_value lib g (Suc k)"
    by (simp add: gauss_value_def)
  have "map (\<lambda>k. f64_add loc (f64_mul scale (round_f64 (gauss_value lib g k)))) [0..<Suc n]
      = f64_add loc (f64_mul scale (round_f64 (gauss_value lib g 0)))
        # map (\<lambda>k. f64_add loc (f64_mul scale (round_f64 (gauss_value lib g (Suc k))))) [0..<n]"
    by (simp only: upt_conv_Cons [OF zero_less_Suc] list.map map_Suc_upt [symmetric] map_map comp_def)
  then show ?case
    by (simp add: Suc.IH split_beta Let_def v del: upt_Suc) (simp add: gauss_value_def)
qed

lemma np_random_normal_draws:
  "np_random_normal lib loc scale rows cols g =
     (map (\<lambda>i. map (\<lambda>j. f64_add loc (f64_mul scale (round_f64 (gauss_value lib g (cols * i + j)))))
               [0..<cols]) [0..<rows],
      gauss_state lib g (cols * rows))"
proof (induction rows arbitrary: g)
  case 0
  then show ?case by simp
next
  case (Suc rows)
  have "map (\<lambda>i. map (\<lambda>j. f64_add loc (f64_mul scale (round_f64 (gauss_value lib g (cols * i + j)))))
               [0..<cols]) [0..<Suc rows]
      = map (\<lambda>j. f64_add loc (f64_mul scale (round_f64 (gauss_value lib g j)))) [0..<cols]
        # map (\<lambda>i. map (\<lambda>j. f64_add loc (f64_mul scale
                   (round_f64 (gauss_value lib g (cols * Suc i + j))))) [0..<cols]) [0..<rows]"
    by (simp only: upt_conv_Cons [OF zero_less_Suc] list.map map_Suc_upt [symmetric] map_map comp_def)
       simp
  then show ?case
    by (simp add: Suc.IH normal_row_draws split_beta Let_def gauss_value_shift gauss_state_add
        add.assoc del: upt_Suc)
qed

lemma f64_add_Fin_not_NaN: "y \<noteq> NaN \<Longrightarrow> f64_add (Fin b) y \<noteq> NaN"
  by (cases y) simp_all

lemma noise_not_NaN: "f64_add (Fin 0) (f64_mul (Fin 4) (round_f64 z)) \<noteq> NaN"
proof -
  have "f64_mul (Fin 4) (round_f64 z) \<noteq> NaN"
    by (cases "round_f64 z") (simp_all add: signed_inf_def)
  then show ?thesis by (rule f64_add_Fin_not_NaN)
qed

lemma spec_noise_not_NaN: "spec_noise lib seed k \<noteq> NaN"
  unfolding spec_noise_def by (rule noise_not_NaN)

subsection \<open>The frame\<close>

lemma broadcast_add_map:
  "broadcast_add (map f [0..<n]) (map g [0..<n]) = map (\<lambda>i. map (f64_add (f i)) (g i)) [0..<n]"
  by (simp add: broadcast_add_def zip_map_map zip_same_conv_map comp_def)

lemma series_values_spec:
  assumes "0 \<le> periods" "periods \<le> 7032"
  shows "series_values lib seed periods = spec_series lib seed (nat periods)"
  by (simp add: series_values_def np_linspace_spec [OF assms] np_random_normal_draws
      f64_of_int_numeral broadcast_add_map spec_series_def spec_noise_def
      f64_clip_spec np_round_spec comp_def)

lemma generated_values_spec:
  assumes "generate_time_series lib seed periods g utcnow = (Inr df, g')"
    and "valid_date (date.truncate utcnow)"
  shows "0 \<le> periods" "periods \<le> 7032" "df_values df = spec_series lib seed (nat periods)"
proof -
  note r = generate_time_series_Inr [OF assms(1)]
  show p0: "0 \<le> periods" by (rule r(3))
  show p1: "periods \<le> 7032" using r(4) assms(2) by (rule date_range_periods_bound)
  show "df_values df = spec_series lib seed (nat periods)"
    using r(6) series_values_spec [OF p0 p1] by simp
qed

definition demo_frame :: "date dataframe" where
  "demo_frame =
     \<lparr>df_columns = [''Governance'', ''ESG'', ''Finance''],
      df_index = [\<lparr>year = 2026, month = 9, day = 30\<rparr>, \<lparr>year = 2026, month = 10, day = 31\<rparr>],
      df_values = [[Fin 60, Fin 64, Fin 68], [Fin 77, Fin 81, Fin 85]]\<rparr>"

lemma demo_valid: "valid_date (date.truncate demo_now)"
  by (simp add: calendar_defs demo_now_def)

lemma demo_range_2:
  "pd_date_range_M (date.truncate demo_now) 2 =
     Inr [\<lparr>year = 2026, month = 9, day = 30\<rparr>, \<lparr>year = 2026, month = 10, day = 31\<rparr>]"
  by (simp add: calendar_defs demo_now_def upto.simps)

lemma gauss_state_numeral:
  "gauss_state lib g (numeral n) = gauss_state lib (snd (gauss lib g)) (pred_numeral n)"
  by (simp add: numeral_eq_Suc)

lemma upt_3: "[0..<3] = [0, 1, 2]"
  by (simp add: numeral_3_eq_3)

lemma upt_2: "[0..<2] = [0, 1]"
  by (simp add: numeral_2_eq_2)

lemma demo_gauss:
  "gauss_value demo_random 42 0 = 0" "gauss_value demo_random 42 (Suc 0) = 1"
  "gauss_value demo_random 42 (Suc (Suc 0)) = 2" "gauss_value demo_random 42 3 = - 2"
  "gauss_value demo_random 42 4 = - 1" "gauss_value demo_random 42 5 = 0"
  by (simp_all add: gauss_value_def demo_random_def gauss_state_numeral)

lemma round_f64_minus_one [simp]: "round_f64 (- 1) = Fin (- 1)"
  using is_f64_of_int [of "- 1"] by (simp add: is_f64_def)

lemma f64_of_int_1 [simp]: "f64_of_int 1 = Fin 1"
  by (simp add: f64_of_int_def)

lemma round_half_even_numeral [simp]: "round_half_even (numeral n) = numeral n"
  using round_half_even_of_int [of "numeral n"] by simp

lemma demo_noise:
  "spec_noise demo_random 42 0 = Fin 0" "spec_noise demo_random 42 (Suc 0) = Fin 4"
  "spec_noise demo_random 42 (Suc (Suc 0)) = Fin 8" "spec_noise demo_random 42 3 = Fin (- 8)"
  "spec_noise demo_random 42 4 = Fin (- 4)" "spec_noise demo_random 42 5 = Fin 0"
proof -
  have s: "mt_seed demo_random (nat 42) = 42" by (simp add: demo_random_def)
  show "spec_noise demo_random 42 0 = Fin 0" "spec_noise demo_random 42 (Suc 0) = Fin 4"
    "spec_noise demo_random 42 (Suc (Suc 0)) = Fin 8" "spec_noise demo_random 42 3 = Fin (- 8)"
    "spec_noise demo_random 42 4 = Fin (- 4)" "spec_noise demo_random 42 5 = Fin 0"
    unfolding spec_noise_def s demo_gauss
    by (simp_all add: round_f64_numeral round_f64_neg_numeral)
qed

lemma demo_baseline: "spec_baseline 2 0 = Fin 60" "spec_baseline 2 (Suc 0) = Fin 85"
  by (simp_all add: spec_baseline_def round_f64_numeral)

lemma demo_cells:
  "spec_round_1dp (spec_clip (Fin 60)) = Fin 60" "spec_round_1dp (spec_clip (Fin 64)) = Fin 64"
  "spec_round_1dp (spec_clip (Fin 68)) = Fin 68" "spec_round_1dp (spec_clip (Fin 77)) = Fin 77"
  "spec_round_1dp (spec_clip (Fin 81)) = Fin 81" "spec_round_1dp (spec_clip (Fin 85)) = Fin 85"
  by (simp_all add: spec_clip_def spec_round_1dp_def round_f64_numeral)

lemma demo_values:
  "series_values demo_random 42 2 = [[Fin 60, Fin 64, Fin 68], [Fin 77, Fin 81, Fin 85]]"
proof -
  have "spec_series demo_random 42 2 = [[Fin 60, Fin 64, Fin 68], [Fin 77, Fin 81, Fin 85]]"
    unfolding spec_series_def upt_3 upt_2
    by (simp add: demo_noise demo_baseline round_f64_numeral round_f64_neg_numeral demo_cells)
  then show ?thesis using series_values_spec [of 2 demo_random 42] by simp
qed

lemma demo_state: "series_state demo_random 42 2 = 48"
  by (simp add: series_state_def np_random_normal_draws demo_random_def gauss_state_numeral)

lemma demo_call: "generate_time_series demo_random 42 2 0 demo_now = (Inr demo_frame, 48)"
  by (simp add: generate_time_series_eq demo_range_2 demo_values demo_state demo_frame_def
      series_columns_def)

text \<open>
  Claim C2. Every field value \<open>v\<close> of every row of a generated series satisfies
  \<open>0 \<le> v \<le> 100\<close> and has at most one decimal digit: \<open>v\<close> is the binary64 number nearest
  to \<open>k/10\<close> for an integer \<open>k\<close> between 0 and 1000 (the float that a decimal numeral with
  one fractional digit denotes, and that prints with at most one decimal). Every row has
  its three fields. The clock reading is a calendar date.
\<close>

theorem C2_values_in_range_one_decimal:
  assumes "generate_time_series lib seed periods g utcnow = (Inr df, g')"
    and "valid_date (date.truncate utcnow)"
  shows "\<forall>row \<in> set (df_values df). length row = 3 \<and>
           (\<forall>v \<in> set row. \<exists>q k. v = Fin q \<and> 0 \<le> q \<and> q \<le> 100
                               \<and> 0 \<le> k \<and> k \<le> 1000 \<and> round_f64 (of_int k / 10) = Fin q)"
proof (intro ballI conjI)
  note v = generated_values_spec [OF assms]
  define n where "n = nat periods"
  have n: "n \<le> 7032" using v(2) by (simp add: n_def)
  fix row
  assume "row \<in> set (df_values df)"
  then obtain i where i: "i < n"
    and row: "row = map (\<lambda>j. spec_round_1dp (spec_clip
                 (f64_add (spec_baseline n i) (spec_noise lib seed (3 * i + j))))) [0..<3]"
    unfolding v(3) spec_series_def n_def [symmetric] by auto
  show "length row = 3" by (simp add: row)
  fix x
  assume "x \<in> set row"
  then obtain j where
    x: "x = spec_round_1dp (spec_clip (f64_add (spec_baseline n i) (spec_noise lib seed (3 * i + j))))"
    unfolding row by auto
  obtain b where b: "spec_baseline n i = Fin b" using spec_baseline_finite [OF n i] by blast
  have "f64_add (spec_baseline n i) (spec_noise lib seed (3 * i + j)) \<noteq> NaN"
    unfolding b using spec_noise_not_NaN by (rule f64_add_Fin_not_NaN)
  from cell_range [OF this]
  show "\<exists>q k. x = Fin q \<and> 0 \<le> q \<and> q \<le> 100 \<and> 0 \<le> k \<and> k \<le> 1000 \<and> round_f64 (of_int k / 10) = Fin q"
    unfolding x .
qed

text \<open>The theorem at seed 42 and two periods on 4 November 2026, for the ESG score 81.\<close>

theorem C2_values_in_range_one_decimal_witness:
  "generate_time_series demo_random 42 2 0 demo_now = (Inr demo_frame, 48)
   \<and> valid_date (date.truncate demo_now)
   \<and> [Fin 77, Fin 81, Fin 85] \<in> set (df_values demo_frame) \<and> Fin 81 \<in> set [Fin 77, Fin 81, Fin 85]
   \<and> (\<exists>q k. Fin 81 = Fin q \<and> 0 \<le> q \<and> q \<le> 100 \<and> 0 \<le> k \<and> k \<le> 1000
          \<and> round_f64 (of_int k / 10) = Fin q)"
proof -
  have r: "[Fin 77, Fin 81, Fin 85] \<in> set (df_values demo_frame)" by (simp add: demo_frame_def)
  have e: "Fin 81 \<in> set [Fin 77, Fin 81, Fin 85]" by simp
  from C2_values_in_range_one_decimal [OF demo_call demo_valid] r e
  have "\<exists>q k. Fin 81 = Fin q \<and> 0 \<le> q \<and> q \<le> 100 \<and> 0 \<le> k \<and> k \<le> 1000
          \<and> round_f64 (of_int k / 10) = Fin q"
    by blast
  then show ?thesis using demo_call demo_valid r e by blast
qed

subsection \<open>The steps on concrete draws\<close>










lemma round_half_even_0 [simp]: "round_half_even 0 = 0"
  using round_half_even_of_int [of 0] by simp











section \<open>The report renderer\<close>

subsection \<open>Strings and the time stamp\<close>

text \<open>
  A Python string is modelled by its UTF-8 encoding. \<open>str_of_nat\<close> writes a natural number
  in decimal; \<open>pad2\<close> is the format \<^verbatim>\<open>%02d\<close>.
\<close>

fun str_of_nat :: "nat \<Rightarrow> string" where
  "str_of_nat n =
     (if n < 10 then [char_of (48 + n)] else str_of_nat (n div 10) @ [char_of (48 + n mod 10)])"

declare str_of_nat.simps [simp del]

definition pad2 :: "int \<Rightarrow> string" where
  "pad2 n = (if n < 10 then ''0'' @ str_of_nat (nat n) else str_of_nat (nat n))"

definition month_name :: "int \<Rightarrow> string" where
  "month_name m =
     [''January'', ''February'', ''March'', ''April'', ''May'', ''June'', ''July'',
      ''August'', ''September'', ''October'', ''November'', ''December''] ! nat (m - 1)"

text \<open>The format \<^verbatim>\<open>f"Generated: {t:%B %d, %Y %H:%M UTC}"\<close> of a valid date and time.\<close>

definition generated_line :: "datetime \<Rightarrow> string" where
  "generated_line t =
     ''Generated: '' @ month_name (month t) @ '' '' @ pad2 (day t) @ '', ''
       @ str_of_nat (nat (year t)) @ '' '' @ pad2 (hour t) @ '':'' @ pad2 (minute t) @ '' UTC''"

text \<open>
  The title \<^verbatim>\<open>f"Earth 3.0 - Board Audit Snapshot * {org_name}"\<close>, where the source has an em
  dash (U+2014) and a bullet (U+2022) in place of the hyphen and the asterisk.
\<close>

definition report_title :: "string \<Rightarrow> string" where
  "report_title org_name =
     ''Earth 3.0 '' @ [CHR 0xE2, CHR 0x80, CHR 0x94] @ '' Board Audit Snapshot ''
       @ [CHR 0xE2, CHR 0x80, CHR 0xA2] @ '' '' @ org_name"

subsection \<open>The canvas of reportlab\<close>

text \<open>
  reportlab's units and page size: \<^verbatim>\<open>inch = 72.0\<close>, \<^verbatim>\<open>cm = inch / 2.54\<close>, \<^verbatim>\<open>mm = cm * 0.1\<close>,
  \<^verbatim>\<open>A4 = (210*mm, 297*mm)\<close>.
\<close>

definition mm :: f64 where
  "mm = f64_mul (f64_div (Fin 72) (round_f64 (254 / 100))) (round_f64 (1 / 10))"

definition A4 :: "f64 \<times> f64" where
  "A4 = (f64_mul (f64_of_int 210) mm, f64_mul (f64_of_int 297) mm)"

text \<open>
  What a page holds: the operations the drawing calls append to the page's code. A text
  object carries its origin, its font and the lines written to it.
\<close>

datatype page_op =
    FontOp string f64
  | StringOp f64 f64 string
  | TextOp f64 f64 string f64 "string list"

record text_object =
  t_x :: f64
  t_y :: f64
  t_font :: string
  t_size :: f64
  t_lines :: "string list"

record pdf_document =
  doc_pagesize :: "f64 \<times> f64"
  doc_pages :: "page_op list list"

record canvas =
  c_doc :: pdf_document
  c_font :: "string \<times> f64"
  c_code :: "page_op list"

definition Canvas :: "f64 \<times> f64 \<Rightarrow> canvas" where
  "Canvas pagesize =
     \<lparr>c_doc = \<lparr>doc_pagesize = pagesize, doc_pages = []\<rparr>,
      c_font = (''Helvetica'', Fin 12), c_code = []\<rparr>"

definition setFont :: "string \<Rightarrow> f64 \<Rightarrow> canvas \<Rightarrow> canvas" where
  "setFont name sz c = c\<lparr>c_font := (name, sz), c_code := c_code c @ [FontOp name sz]\<rparr>"

definition drawString :: "f64 \<Rightarrow> f64 \<Rightarrow> string \<Rightarrow> canvas \<Rightarrow> canvas" where
  "drawString x y text c = c\<lparr>c_code := c_code c @ [StringOp x y text]\<rparr>"

definition beginText :: "f64 \<Rightarrow> f64 \<Rightarrow> canvas \<Rightarrow> text_object" where
  "beginText x y c =
     \<lparr>t_x = x, t_y = y, t_font = fst (c_font c), t_size = snd (c_font c), t_lines = []\<rparr>"

definition text_setFont :: "string \<Rightarrow> f64 \<Rightarrow> text_object \<Rightarrow> text_object" where
  "text_setFont name sz t = t\<lparr>t_font := name, t_size := sz\<rparr>"

definition textLine :: "string \<Rightarrow> text_object \<Rightarrow> text_object" where
  "textLine line t = t\<lparr>t_lines := t_lines t @ [line]\<rparr>"

definition drawText :: "text_object \<Rightarrow> canvas \<Rightarrow> canvas" where
  "drawText t c =
     c\<lparr>c_code := c_code c @ [TextOp (t_x t) (t_y t) (t_font t) (t_size t) (t_lines t)]\<rparr>"

text \<open>\<^verbatim>\<open>showPage\<close> closes the current page: its code becomes a page of the document, and a new
  page starts with no code and the initial font.\<close>

definition showPage :: "canvas \<Rightarrow> canvas" where
  "showPage c =
     c\<lparr>c_doc := (c_doc c)\<lparr>doc_pages := doc_pages (c_doc c) @ [c_code c]\<rparr>,
       c_font := (''Helvetica'', Fin 12), c_code := []\<rparr>"

text \<open>
  \<^verbatim>\<open>save\<close> closes a page that still has code and writes the document to the canvas's file.
  The bytes written are the work of reportlab's serialiser, a parameter of the model; it
  also embeds the time at which the canvas was created.
\<close>

type_synonym bytes = string

record render_lib =
  pdf_format :: "pdf_document \<Rightarrow> datetime \<Rightarrow> bytes"
  float_str :: "f64 \<Rightarrow> string"

record bytes_io =
  io_contents :: bytes
  io_pos :: nat

definition BytesIO :: bytes_io where
  "BytesIO = \<lparr>io_contents = [], io_pos = 0\<rparr>"

definition io_write :: "bytes \<Rightarrow> bytes_io \<Rightarrow> bytes_io" where
  "io_write bs b =
     \<lparr>io_contents = take (io_pos b) (io_contents b) @ bs
                     @ drop (io_pos b + length bs) (io_contents b),
      io_pos = io_pos b + length bs\<rparr>"

definition io_seek :: "nat \<Rightarrow> bytes_io \<Rightarrow> bytes_io" where
  "io_seek n b = b\<lparr>io_pos := n\<rparr>"

definition io_read :: "bytes_io \<Rightarrow> bytes" where
  "io_read b = drop (io_pos b) (io_contents b)"

definition canvas_final :: "canvas \<Rightarrow> canvas" where
  "canvas_final c = (if c_code c \<noteq> [] then showPage c else c)"

definition save :: "render_lib \<Rightarrow> datetime \<Rightarrow> canvas \<Rightarrow> bytes_io \<Rightarrow> bytes_io" where
  "save rl created c buffer = io_write (pdf_format rl (c_doc (canvas_final c)) created) buffer"

subsection \<open>\<^verbatim>\<open>make_pdf_bytes\<close>\<close>

text \<open>
  \<^verbatim>\<open>
  def make_pdf_bytes(org_name, summary_lines):
      buffer = io.BytesIO()
      c = canvas.Canvas(buffer, pagesize=A4)
      width, height = A4
      c.setFont("Helvetica-Bold", 16)
      c.drawString(40, height - 60, f"Earth 3.0 - Board Audit Snapshot * {org_name}")
      c.setFont("Helvetica", 10)
      c.drawString(40, height - 82, f"Generated: {datetime.utcnow():%B %d, %Y %H:%M UTC}")
      text = c.beginText(40, height - 120)
      text.setFont("Helvetica", 11)
      for line in summary_lines:
          text.textLine(line)
      c.drawText(text)
      c.showPage()
      c.save()
      buffer.seek(0)
      return buffer.read()
  \<close>
  The canvas of the function just before \<^verbatim>\<open>c.save()\<close> is \<open>report_canvas\<close>. The clock is read
  when the canvas is created (\<open>created\<close>) and for the time stamp line (\<open>utcnow\<close>).
\<close>

definition report_canvas :: "string \<Rightarrow> string list \<Rightarrow> datetime \<Rightarrow> canvas" where
  "report_canvas org_name summary_lines utcnow =
     (let c = Canvas A4;
          height = snd A4;
          c = setFont ''Helvetica-Bold'' (Fin 16) c;
          c = drawString (Fin 40) (f64_sub height (Fin 60)) (report_title org_name) c;
          c = setFont ''Helvetica'' (Fin 10) c;
          c = drawString (Fin 40) (f64_sub height (Fin 82)) (generated_line utcnow) c;
          text = beginText (Fin 40) (f64_sub height (Fin 120)) c;
          text = text_setFont ''Helvetica'' (Fin 11) text;
          text = fold textLine summary_lines text;
          c = drawText text c
      in showPage c)"

definition make_pdf_bytes ::
  "render_lib \<Rightarrow> string \<Rightarrow> string list \<Rightarrow> datetime \<Rightarrow> datetime \<Rightarrow> bytes" where
  "make_pdf_bytes rl org_name summary_lines created utcnow =
     (let buffer = BytesIO;
          c = report_canvas org_name summary_lines utcnow;
          buffer = save rl created c buffer;
          buffer = io_seek 0 buffer
      in io_read buffer)"

text \<open>The strings a page shows, in drawing order.\<close>

fun op_strings :: "page_op \<Rightarrow> string list" where
  "op_strings (FontOp name sz) = []"
| "op_strings (StringOp x y text) = [text]"
| "op_strings (TextOp x y name sz lines) = lines"

definition page_strings :: "page_op list \<Rightarrow> string list" where
  "page_strings page = concat (map op_strings page)"

lemma fold_textLine: "fold textLine ls t = t\<lparr>t_lines := t_lines t @ ls\<rparr>"
  by (induction ls arbitrary: t) (simp_all add: textLine_def)

lemma report_canvas_pages:
  "doc_pages (c_doc (report_canvas org_name summary_lines utcnow)) =
     [[FontOp ''Helvetica-Bold'' (Fin 16),
       StringOp (Fin 40) (f64_sub (snd A4) (Fin 60)) (report_title org_name),
       FontOp ''Helvetica'' (Fin 10),
       StringOp (Fin 40) (f64_sub (snd A4) (Fin 82)) (generated_line utcnow),
       TextOp (Fin 40) (f64_sub (snd A4) (Fin 120)) ''Helvetica'' (Fin 11) summary_lines]]"
  by (simp add: report_canvas_def Let_def Canvas_def setFont_def drawString_def beginText_def
      text_setFont_def fold_textLine drawText_def showPage_def)

lemma report_canvas_closed: "c_code (report_canvas org_name summary_lines utcnow) = []"
  by (simp add: report_canvas_def Let_def showPage_def)


lemma make_pdf_bytes_eq:
  "make_pdf_bytes rl org_name summary_lines created utcnow =
     pdf_format rl (c_doc (report_canvas org_name summary_lines utcnow)) created"
  by (simp add: make_pdf_bytes_def Let_def save_def canvas_final_def report_canvas_closed
      BytesIO_def io_write_def io_seek_def io_read_def)



text \<open>A serialiser that writes the strings of the pages, to run the model on concrete inputs.\<close>

definition plain_render :: render_lib where
  "plain_render =
     \<lparr>pdf_format = (\<lambda>d t. concat (concat (map page_strings (doc_pages d)))),
      float_str = (\<lambda>x. ''x'')\<rparr>"









section \<open>The simulated audit\<close>

text \<open>
  The handler of the button "Run Simulated Audit" (lines 102 to 127):
  \<^verbatim>\<open>
    org = st.text_input("Organization name (for report)", value="Acme Global", key="org_name")
    if st.button("Run Simulated Audit"):
        time.sleep(0.6)
        df = generate_time_series(seed=42)
        latest = df.iloc[-1]
        audit_df = latest.to_frame(name='Score').reset_index()
        audit_df.columns = ['Metric', 'Score']
        st.table(audit_df)
        df_reset = df.reset_index().rename(columns={'index':'Date'})
        fig = px.line(df_reset, x='Date', y=['Governance','ESG','Finance'], ...)
        summary_lines = [f"Organization: {org}",
                         f"Generated: {datetime.utcnow():%B %d, %Y %H:%M UTC}"]
        summary_lines += [f"{k}: {v}" for k,v in latest.items()]
        pdf_bytes = make_pdf_bytes(org, summary_lines)
        st.download_button(..., data=pdf_bytes, file_name=f"{org}_earth3_audit.pdf", ...)
  \<close>
  The handler reads the clock four times: in the series generator, for the summary, when
  the canvas is created and for the time stamp line of the report. What it shows is
  collected in a record.
\<close>

record audit_times =
  series_clock :: clock
  summary_time :: datetime
  canvas_time :: datetime
  stamp_time :: datetime

record audit_view =
  audit_table :: "(string \<times> f64) list"
  audit_chart :: "date dataframe"
  audit_lines :: "string list"
  pdf_data :: bytes
  file_name :: string

definition run_simulated_audit ::
  "'g np_random \<Rightarrow> render_lib \<Rightarrow> string \<Rightarrow> 'g app_state \<Rightarrow> audit_times
     \<Rightarrow> (py_error + audit_view) \<times> 'g app_state" where
  "run_simulated_audit lib rl org st rd =
     (case generate_time_series_cached lib 42 12 st (series_clock rd) of
        (Inl e, st') \<Rightarrow> (Inl e, st')
      | (Inr df, st') \<Rightarrow>
          (if df_values df = [] then (Inl IndexError, st')
           else let latest = zip (df_columns df) (last (df_values df));
                    summary_lines =
                      [''Organization: '' @ org, generated_line (summary_time rd)]
                      @ map (\<lambda>(k, v). k @ '': '' @ float_str rl v) latest;
                    pdf_bytes = make_pdf_bytes rl org summary_lines (canvas_time rd) (stamp_time rd)
                in (Inr \<lparr>audit_table = latest, audit_chart = df, audit_lines = summary_lines,
                          pdf_data = pdf_bytes, file_name = org @ ''_earth3_audit.pdf''\<rparr>, st')))"

lemma run_simulated_audit_Inr:
  assumes "cache_ok lib st" "run_simulated_audit lib rl org st rd = (Inr v, st')"
  shows "audit_table v = zip series_columns (last (series_values lib 42 12))"
    "df_values (audit_chart v) = series_values lib 42 12"
    "audit_lines v = [''Organization: '' @ org, generated_line (summary_time rd)]
        @ map (\<lambda>(k, v). k @ '': '' @ float_str rl v) (audit_table v)"
    "pdf_data v = make_pdf_bytes rl org (audit_lines v) (canvas_time rd) (stamp_time rd)"
    "cache_ok lib st'"
proof -
  obtain res st1 where c: "generate_time_series_cached lib 42 12 st (series_clock rd) = (res, st1)"
    by (cases "generate_time_series_cached lib 42 12 st (series_clock rd)")
  from assms(2) c obtain df where df: "res = Inr df"
    by (cases res) (auto simp: run_simulated_audit_def)
  have st': "st' = st1"
    using assms(2) c df by (auto simp: run_simulated_audit_def Let_def split: if_splits)
  have ne: "df_values df \<noteq> []"
    using assms(2) c df by (auto simp: run_simulated_audit_def split: if_splits)
  note vals = cached_values [OF assms(1) c [unfolded df]]
  have v: "v = \<lparr>audit_table = zip (df_columns df) (last (df_values df)), audit_chart = df,
      audit_lines = [''Organization: '' @ org, generated_line (summary_time rd)]
        @ map (\<lambda>(k, v). k @ '': '' @ float_str rl v) (zip (df_columns df) (last (df_values df))),
      pdf_data = make_pdf_bytes rl org
        ([''Organization: '' @ org, generated_line (summary_time rd)]
          @ map (\<lambda>(k, v). k @ '': '' @ float_str rl v) (zip (df_columns df) (last (df_values df))))
        (canvas_time rd) (stamp_time rd),
      file_name = org @ ''_earth3_audit.pdf''\<rparr>"
    using assms(2) c df ne by (simp add: run_simulated_audit_def Let_def)
  show "audit_table v = zip series_columns (last (series_values lib 42 12))"
    by (simp add: v vals)
  show "df_values (audit_chart v) = series_values lib 42 12" by (simp add: v vals)
  show "audit_lines v = [''Organization: '' @ org, generated_line (summary_time rd)]
        @ map (\<lambda>(k, v). k @ '': '' @ float_str rl v) (audit_table v)"
    by (simp add: v)
  show "pdf_data v = make_pdf_bytes rl org (audit_lines v) (canvas_time rd) (stamp_time rd)"
    by (simp add: v)
  show "cache_ok lib st'" unfolding st' using assms(1) c by (rule cached_ok)
qed

text \<open>
  The handler completes whenever the date of the clock is a calendar date of the years 1679
  to 2261, where the twelve month ends up to it are within the bounds of a time stamp.
\<close>

lemma run_simulated_audit_completes:
  assumes "cache_ok lib st" "valid_date (date.truncate (utc (series_clock rd)))"
    and "1679 \<le> year (utc (series_clock rd))" "year (utc (series_clock rd)) \<le> 2261"
  shows "\<exists>v st'. run_simulated_audit lib rl org st rd = (Inr v, st')"
proof -
  have len: "length (series_values lib 42 12) = nat 12"
    by (rule series_values_length) simp
  then have ne: "series_values lib 42 12 \<noteq> []" by auto
  obtain dates where d: "pd_date_range_M (date.truncate (utc (series_clock rd))) 12 = Inr dates"
    using date_range_exists [OF assms(2), of 12] assms(3,4) by (auto simp: date.truncate_def)
  have fresh: "generate_time_series lib 42 12 (np_state st) (utc (series_clock rd))
      = (Inr \<lparr>df_columns = series_columns, df_index = dates,
                 df_values = series_values lib 42 12\<rparr>, series_state lib 42 12)"
    by (simp add: generate_time_series_eq d)
  obtain res st1 where c: "generate_time_series_cached lib 42 12 st (series_clock rd) = (res, st1)"
    by (cases "generate_time_series_cached lib 42 12 st (series_clock rd)")
  have "\<exists>df. res = Inr df"
    using c fresh
    by (auto simp: generate_time_series_cached_def cache_miss_def split: option.splits if_splits)
  then obtain df where df: "res = Inr df" by blast
  have "df_values df = series_values lib 42 12"
    using cached_values(1) [OF assms(1) c [unfolded df]] .
  then show ?thesis using c df ne by (simp add: run_simulated_audit_def Let_def)
qed

text \<open>
  Claim C9. The handler always calls the series generator with the seed 42 and the default
  period count 12, so the scores it shows in the table, plots in the chart and writes into
  the report (the summary lines after the first two, which the page of the report shows)
  do not depend on the organisation name: two audits that complete, for any two names, at
  any times and from any states of the process, show the same scores.
\<close>

theorem C9_scores_independent_of_org:
  assumes "cache_ok lib st1" "cache_ok lib st2"
    and "run_simulated_audit lib rl org1 st1 rd1 = (Inr v1, st1')"
    and "run_simulated_audit lib rl org2 st2 rd2 = (Inr v2, st2')"
  shows "audit_table v1 = audit_table v2
     \<and> audit_table v1 = zip series_columns (last (series_values lib 42 12))
     \<and> df_values (audit_chart v1) = df_values (audit_chart v2)
     \<and> drop 2 (audit_lines v1) = drop 2 (audit_lines v2)
     \<and> drop 2 (audit_lines v1) = map (\<lambda>(k, v). k @ '': '' @ float_str rl v) (audit_table v1)
     \<and> page_strings (hd (doc_pages (c_doc (report_canvas org1 (audit_lines v1) (stamp_time rd1)))))
         = [report_title org1, generated_line (stamp_time rd1)] @ audit_lines v1
     \<and> pdf_data v1 = pdf_format rl (c_doc (report_canvas org1 (audit_lines v1) (stamp_time rd1)))
                         (canvas_time rd1)"
proof -
  note a = run_simulated_audit_Inr [OF assms(1,3)]
  note b = run_simulated_audit_Inr [OF assms(2,4)]
  have t: "audit_table v1 = audit_table v2" using a(1) b(1) by simp
  have l1: "drop 2 (audit_lines v1) = map (\<lambda>(k, v). k @ '': '' @ float_str rl v) (audit_table v1)"
    by (simp add: a(3))
  have l2: "drop 2 (audit_lines v2) = map (\<lambda>(k, v). k @ '': '' @ float_str rl v) (audit_table v2)"
    by (simp add: b(3))
  show ?thesis
    using t a(1) a(2) b(2) l1 l2 a(4)
    by (simp add: make_pdf_bytes_eq report_canvas_pages page_strings_def)
qed

definition demo_readings :: audit_times where
  "demo_readings =
     \<lparr>series_clock = \<lparr>utc = demo_now, timer = 0\<rparr>, summary_time = demo_now,
      canvas_time = demo_now, stamp_time = demo_now\<rparr>"

lemma demo_audit:
  "\<exists>v st'. run_simulated_audit demo_random plain_render org empty_state demo_readings = (Inr v, st')"
proof -
  have len: "length (series_values demo_random 42 12) = nat 12"
    by (rule series_values_length) simp
  then have ne: "series_values demo_random 42 12 \<noteq> []" by auto
  have "\<exists>df st'. generate_time_series_cached demo_random 42 12 empty_state
           \<lparr>utc = demo_now, timer = 0\<rparr> = (Inr df, st')
         \<and> df_values df = series_values demo_random 42 12"
    by (simp add: generate_time_series_cached_def cache_miss_def empty_state_def
        generate_time_series_eq demo_range)
  then obtain df st' where c: "generate_time_series_cached demo_random 42 12 empty_state
           \<lparr>utc = demo_now, timer = 0\<rparr> = (Inr df, st')"
    and v: "df_values df = series_values demo_random 42 12" by blast
  show ?thesis
    using c v ne by (simp add: run_simulated_audit_def demo_readings_def Let_def)
qed

text \<open>The theorem for the names "Acme Global" and "Globex" on 4 November 2026.\<close>

theorem C9_scores_independent_of_org_witness:
  "cache_ok demo_random empty_state
   \<and> (\<exists>v1 s1 v2 s2.
        run_simulated_audit demo_random plain_render ''Acme Global'' empty_state demo_readings
          = (Inr v1, s1)
      \<and> run_simulated_audit demo_random plain_render ''Globex'' empty_state demo_readings
          = (Inr v2, s2)
      \<and> audit_table v1 = audit_table v2
      \<and> df_values (audit_chart v1) = df_values (audit_chart v2)
      \<and> drop 2 (audit_lines v1) = drop 2 (audit_lines v2))"
proof -
  have ok: "cache_ok demo_random empty_state"
    unfolding empty_state_def by (rule cache_ok_empty)
  obtain v1 s1 where r1:
    "run_simulated_audit demo_random plain_render ''Acme Global'' empty_state demo_readings = (Inr v1, s1)"
    using demo_audit by blast
  obtain v2 s2 where r2:
    "run_simulated_audit demo_random plain_render ''Globex'' empty_state demo_readings = (Inr v2, s2)"
    using demo_audit by blast
  from C9_scores_independent_of_org [OF ok ok r1 r2] ok r1 r2
  show ?thesis by blast
qed

end
